theory Spec2Isabelle
  imports Complex_Main
begin

section \<open>Python values\<close>

text \<open>
  The values the matcher and the template codec handle are the values \<open>json.loads\<close>
  can return. A Python \<open>str\<close> is the list of its Unicode code points, a \<open>dict\<close> with
  string keys is an association list in insertion order. A Python \<open>float\<close> is
  represented by the decimal text \<open>json.dumps\<close> writes for it (its \<open>repr\<close>), and read
  back as a real number by \<open>float_val\<close>: rounding to IEEE doubles is not modelled, the
  arithmetic of the matcher is carried out over the reals.

  Python names starting with an underscore lose it here, since an Isabelle name starts
  with a letter: \<open>_decode_template\<close> is \<open>decode_template\<close>, and so on.
\<close>

type_synonym pystr = "nat list"

datatype pyval =
    PNone
  | PBool bool
  | PInt int
  | PFloat pystr
  | PStr pystr
  | PList "pyval list"
  | PDict "(pystr \<times> pyval) list"

datatype pyerr = AttributeError | KeyError | TypeError | ValueError

abbreviation (input) S :: "string \<Rightarrow> pystr" where
  "S s \<equiv> map of_char s"

subsection \<open>Number literals\<close>

text \<open>
  \<open>json.scanner.NUMBER_RE\<close> is \<^verbatim>\<open>(-?(?:0|[1-9]\d*))(\.\d+)?([eE][-+]?\d+)?\<close>; the three
  groups are matched by \<open>match_integer\<close>, \<open>match_frac\<close> and \<open>match_exp\<close>, each returning
  the text it matched and the rest of the input.
\<close>

definition is_digit :: "nat \<Rightarrow> bool" where
  "is_digit c \<longleftrightarrow> 48 \<le> c \<and> c \<le> 57"

definition match_digits1 :: "pystr \<Rightarrow> (pystr \<times> pystr) option" where
  "match_digits1 s =
     (case s of [] \<Rightarrow> None
      | c # r \<Rightarrow> if is_digit c then Some (c # takeWhile is_digit r, dropWhile is_digit r) else None)"

definition match_natural :: "pystr \<Rightarrow> (pystr \<times> pystr) option" where
  "match_natural s =
     (case s of [] \<Rightarrow> None
      | c # r \<Rightarrow> if c = 48 then Some ([48], r) else match_digits1 s)"

definition match_integer :: "pystr \<Rightarrow> (pystr \<times> pystr) option" where
  "match_integer s =
     (case s of [] \<Rightarrow> None
      | c # r \<Rightarrow>
          if c = 45 then (case match_natural r of None \<Rightarrow> None | Some (m, t) \<Rightarrow> Some (45 # m, t))
          else match_natural s)"

definition match_frac :: "pystr \<Rightarrow> pystr \<times> pystr" where
  "match_frac s =
     (case s of [] \<Rightarrow> ([], s)
      | c # r \<Rightarrow>
          if c = 46 then (case match_digits1 r of None \<Rightarrow> ([], s) | Some (m, t) \<Rightarrow> (46 # m, t))
          else ([], s))"

definition match_exp :: "pystr \<Rightarrow> pystr \<times> pystr" where
  "match_exp s =
     (case s of [] \<Rightarrow> ([], s)
      | c # r \<Rightarrow>
          if c = 101 \<or> c = 69 then
            (case r of [] \<Rightarrow> ([], s)
             | d # r' \<Rightarrow>
                 if d = 45 \<or> d = 43 then
                   (case match_digits1 r' of None \<Rightarrow> ([], s) | Some (m, t) \<Rightarrow> (c # d # m, t))
                 else
                   (case match_digits1 r of None \<Rightarrow> ([], s) | Some (m, t) \<Rightarrow> (c # m, t)))
          else ([], s))"

definition match_number :: "pystr \<Rightarrow> (pystr \<times> pystr \<times> pystr \<times> pystr) option" where
  "match_number s =
     (case match_integer s of None \<Rightarrow> None
      | Some (i, r1) \<Rightarrow>
          (case match_frac r1 of (f, r2) \<Rightarrow>
          (case match_exp r2 of (e, r3) \<Rightarrow> Some (i, f, e, r3))))"

definition digits_val :: "pystr \<Rightarrow> nat" where
  "digits_val ds = foldl (\<lambda>a c. 10 * a + (c - 48)) 0 ds"

definition int_val :: "pystr \<Rightarrow> int" where
  "int_val i = (case i of [] \<Rightarrow> 0
                | c # r \<Rightarrow> if c = 45 then - int (digits_val r) else int (digits_val i))"

definition exp_val :: "pystr \<Rightarrow> int" where
  "exp_val e = (case e of [] \<Rightarrow> 0 | _ # r \<Rightarrow>
                 (case r of [] \<Rightarrow> 0
                  | d # r' \<Rightarrow> if d = 45 then - int (digits_val r')
                             else if d = 43 then int (digits_val r') else int (digits_val r)))"

text \<open>
  \<open>float_lit\<close>: the text is a whole number literal with a fraction or an exponent, which
  is what \<open>float.__repr__\<close> writes for a finite float and what the scanner passes to
  \<open>float()\<close>. \<open>float_val\<close> is the number the text denotes.
\<close>

definition float_lit :: "pystr \<Rightarrow> bool" where
  "float_lit s = (case match_number s of
                    Some (i, f, e, r) \<Rightarrow> r = [] \<and> (f \<noteq> [] \<or> e \<noteq> [])
                  | None \<Rightarrow> False)"

definition float_val :: "pystr \<Rightarrow> real option" where
  "float_val s =
     (case match_number s of
        None \<Rightarrow> None
      | Some (i, f, e, r) \<Rightarrow>
          if r = [] \<and> (f \<noteq> [] \<or> e \<noteq> []) then
            Some ((if hd i = 45 then - 1 else 1)
                  * (real (digits_val (if hd i = 45 then tl i else i))
                     + real (digits_val (tl f)) / 10 ^ length (tl f))
                  * 10 powi exp_val e)
          else None)"

subsection \<open>Truth value, \<open>.get\<close>, subscript, iteration\<close>

fun truthy :: "pyval \<Rightarrow> bool" where
  "truthy PNone = False"
| "truthy (PBool b) = b"
| "truthy (PInt i) = (i \<noteq> 0)"
| "truthy (PFloat f) = (float_val f \<noteq> Some 0)"
| "truthy (PStr s) = (s \<noteq> [])"
| "truthy (PList xs) = (xs \<noteq> [])"
| "truthy (PDict kvs) = (kvs \<noteq> [])"

fun py_get :: "pyval \<Rightarrow> pystr \<Rightarrow> pyval \<Rightarrow> pyerr + pyval" where
  "py_get (PDict kvs) k dflt = Inr (case map_of kvs k of None \<Rightarrow> dflt | Some v \<Rightarrow> v)"
| "py_get _ k dflt = Inl AttributeError"

fun py_item :: "pyval \<Rightarrow> pystr \<Rightarrow> pyerr + pyval" where
  "py_item (PDict kvs) k = (case map_of kvs k of None \<Rightarrow> Inl KeyError | Some v \<Rightarrow> Inr v)"
| "py_item _ k = Inl TypeError"

fun py_iter :: "pyval \<Rightarrow> pyerr + pyval list" where
  "py_iter (PList xs) = Inr xs"
| "py_iter (PDict kvs) = Inr (map (\<lambda>kv. PStr (fst kv)) kvs)"
| "py_iter (PStr s) = Inr (map (\<lambda>c. PStr [c]) s)"
| "py_iter _ = Inl TypeError"

fun traverse :: "('a \<Rightarrow> pyerr + 'b) \<Rightarrow> 'a list \<Rightarrow> pyerr + 'b list" where
  "traverse f [] = Inr []"
| "traverse f (x # xs) =
     (case f x of Inl e \<Rightarrow> Inl e
      | Inr y \<Rightarrow> (case traverse f xs of Inl e \<Rightarrow> Inl e | Inr ys \<Rightarrow> Inr (y # ys)))"

subsection \<open>Minutiae as the processor writes them\<close>

text \<open>
  \<open>_extract_minutiae\<close> (\<open>services/fingerprint_processor.py\<close>) appends one dict per point,
  with the keys \<open>x\<close>, \<open>y\<close>, \<open>orientation\<close> and \<open>type\<close>, in this order; \<open>x\<close> and \<open>y\<close> are
  ints, \<open>orientation\<close> is a float and \<open>type\<close> a string.
\<close>

record minutia =
  m_x :: int
  m_y :: int
  m_orientation :: pystr
  m_type :: pystr

definition minutia_dict :: "minutia \<Rightarrow> pyval" where
  "minutia_dict m =
     PDict [(S ''x'', PInt (m_x m)),
            (S ''y'', PInt (m_y m)),
            (S ''orientation'', PFloat (m_orientation m)),
            (S ''type'', PStr (m_type m))]"

section \<open>The matcher (\<open>services/matcher.py\<close>)\<close>

text \<open>\<open>FingerprintMatcher.__init__\<close> fixes the three thresholds.\<close>

definition match_threshold :: real where
  "match_threshold = 7 / 10"

definition max_distance_threshold :: real where
  "max_distance_threshold = 50"

definition orientation_tolerance :: real where
  "orientation_tolerance = 1 / 2"

subsection \<open>\<open>_normalize_angle\<close>\<close>

function normalize_down :: "real \<Rightarrow> real" where
  "normalize_down angle = (if angle > pi then normalize_down (angle - 2 * pi) else angle)"
  by pat_completeness auto
termination
proof (relation "measure (\<lambda>a. nat \<lceil>(a - pi) / (2 * pi)\<rceil>)")
  show "wf (measure (\<lambda>a. nat \<lceil>(a - pi) / (2 * pi)\<rceil>))" by simp
next
  fix angle :: real
  assume gt: "pi < angle"
  define t where "t = (angle - pi) / (2 * pi)"
  have eq: "(angle - 2 * pi - pi) / (2 * pi) = t - 1"
    by (simp add: t_def field_simps)
  have "0 < t" using gt by (simp add: t_def)
  then have "0 < \<lceil>t\<rceil>" by linarith
  then have "nat \<lceil>t - 1\<rceil> < nat \<lceil>t\<rceil>" by simp
  then have "nat \<lceil>(angle - 2 * pi - pi) / (2 * pi)\<rceil> < nat \<lceil>(angle - pi) / (2 * pi)\<rceil>"
    by (simp only: eq) (simp only: t_def)
  then show "(angle - 2 * pi, angle) \<in> measure (\<lambda>a. nat \<lceil>(a - pi) / (2 * pi)\<rceil>)"
    unfolding in_measure .
qed

function normalize_up :: "real \<Rightarrow> real" where
  "normalize_up angle = (if angle < - pi then normalize_up (angle + 2 * pi) else angle)"
  by pat_completeness auto
termination
proof (relation "measure (\<lambda>a. nat \<lceil>(- pi - a) / (2 * pi)\<rceil>)")
  show "wf (measure (\<lambda>a. nat \<lceil>(- pi - a) / (2 * pi)\<rceil>))" by simp
next
  fix angle :: real
  assume lt: "angle < - pi"
  define t where "t = (- pi - angle) / (2 * pi)"
  have eq: "(- pi - (angle + 2 * pi)) / (2 * pi) = t - 1"
    by (simp add: t_def field_simps)
  have "0 < t" using lt by (simp add: t_def)
  then have "0 < \<lceil>t\<rceil>" by linarith
  then have "nat \<lceil>t - 1\<rceil> < nat \<lceil>t\<rceil>" by simp
  then have "nat \<lceil>(- pi - (angle + 2 * pi)) / (2 * pi)\<rceil> < nat \<lceil>(- pi - angle) / (2 * pi)\<rceil>"
    by (simp only: eq) (simp only: t_def)
  then show "(angle + 2 * pi, angle) \<in> measure (\<lambda>a. nat \<lceil>(- pi - a) / (2 * pi)\<rceil>)"
    unfolding in_measure .
qed

definition normalize_angle :: "real \<Rightarrow> real" where
  "normalize_angle angle = normalize_up (normalize_down angle)"

subsection \<open>\<open>_find_minutiae_correspondences\<close>\<close>

type_synonym point = "real \<times> real"

type_synonym correspondence = "nat \<times> nat \<times> real \<times> real"

definition linalg_norm :: "point \<Rightarrow> real" where
  "linalg_norm v = sqrt ((fst v)\<^sup>2 + (snd v)\<^sup>2)"

definition point_sub :: "point \<Rightarrow> point \<Rightarrow> point" where
  "point_sub p q = (fst p - fst q, snd p - snd q)"

text \<open>
  The running best of the inner loop: \<open>best_match\<close> is \<open>None\<close> or a tuple, \<open>best_score\<close>
  starts at \<open>float('inf')\<close>, written \<open>None\<close> here, below which every score lies.
\<close>

definition below_best :: "real \<Rightarrow> real option \<Rightarrow> bool" where
  "below_best score best = (case best of None \<Rightarrow> True | Some b \<Rightarrow> score < b)"

definition inner_body ::
  "nat \<Rightarrow> point \<Rightarrow> real \<Rightarrow> nat set \<Rightarrow> nat \<times> point \<times> real \<Rightarrow>
   correspondence option \<times> real option \<Rightarrow> correspondence option \<times> real option" where
  "inner_body i point1 orientation1 used_indices2 e st =
     (case e of (j, point2, orientation2) \<Rightarrow>
        if j \<in> used_indices2 then st
        else
          let distance = linalg_norm (point_sub point1 point2) in
          if distance > max_distance_threshold then st
          else
            let orientation_diff = \<bar>normalize_angle (orientation1 - orientation2)\<bar> in
            if orientation_diff > orientation_tolerance then st
            else
              let combined_score = distance + orientation_diff * 20 in
              if below_best combined_score (snd st)
              then (Some (i, j, distance, orientation_diff), Some combined_score)
              else st)"

definition outer_body ::
  "point list \<Rightarrow> real list \<Rightarrow> nat \<times> point \<times> real \<Rightarrow>
   correspondence list \<times> nat set \<Rightarrow> correspondence list \<times> nat set" where
  "outer_body points2 orientations2 e st =
     (case e of (i, point1, orientation1) \<Rightarrow>
        (case fst (fold (inner_body i point1 orientation1 (snd st))
                        (List.enumerate 0 (zip points2 orientations2)) (None, None)) of
           None \<Rightarrow> st
         | Some best_match \<Rightarrow> (fst st @ [best_match], insert (fst (snd best_match)) (snd st))))"

definition find_minutiae_correspondences ::
  "point list \<Rightarrow> point list \<Rightarrow> real list \<Rightarrow> real list \<Rightarrow> correspondence list" where
  "find_minutiae_correspondences points1 points2 orientations1 orientations2 =
     fst (fold (outer_body points2 orientations2)
               (List.enumerate 0 (zip points1 orientations1)) ([], {}))"

subsection \<open>The correspondence search in the words of the specification\<close>

text \<open>
  Section 4.6 of the specification: for each point of A in A's order, search every
  not-yet-claimed point of B; compute the Euclidean distance and the absolute value of
  the angle difference normalised into the half-open interval from \<open>-\<pi>\<close> to \<open>\<pi>\<close>;
  reject a candidate whose distance exceeds the distance threshold or whose orientation
  difference exceeds the tolerance; among the survivors pick the one minimising
  \<open>distance + 20 \<times> orientation_difference\<close>; a claimed point of B is out of
  consideration for all later points of A. Points are numbered from 0; where several
  survivors attain the minimum, \<open>arg_min_list\<close> takes the first.
\<close>

definition spec_distance :: "point \<times> real \<Rightarrow> point \<times> real \<Rightarrow> real" where
  "spec_distance a b =
     sqrt ((fst (fst a) - fst (fst b))\<^sup>2 + (snd (fst a) - snd (fst b))\<^sup>2)"

definition spec_normalize :: "real \<Rightarrow> real" where
  "spec_normalize t = t - 2 * pi * of_int \<lceil>(t - pi) / (2 * pi)\<rceil>"

definition spec_orientation_difference :: "point \<times> real \<Rightarrow> point \<times> real \<Rightarrow> real" where
  "spec_orientation_difference a b = \<bar>spec_normalize (snd a - snd b)\<bar>"

definition spec_survives :: "nat set \<Rightarrow> point \<times> real \<Rightarrow> nat \<times> point \<times> real \<Rightarrow> bool" where
  "spec_survives claimed a jb \<longleftrightarrow>
     fst jb \<notin> claimed
     \<and> spec_distance a (snd jb) \<le> max_distance_threshold
     \<and> spec_orientation_difference a (snd jb) \<le> orientation_tolerance"

definition spec_cost :: "point \<times> real \<Rightarrow> nat \<times> point \<times> real \<Rightarrow> real" where
  "spec_cost a jb = spec_distance a (snd jb) + 20 * spec_orientation_difference a (snd jb)"

fun spec_search ::
  "(nat \<times> point \<times> real) list \<Rightarrow> (nat \<times> point \<times> real) list \<Rightarrow> nat set \<Rightarrow> correspondence list" where
  "spec_search [] B claimed = []"
| "spec_search (ia # A) B claimed =
     (let survivors = filter (spec_survives claimed (snd ia)) B in
      if survivors = [] then spec_search A B claimed
      else
        let jb = arg_min_list (spec_cost (snd ia)) survivors in
        (fst ia, fst jb, spec_distance (snd ia) (snd jb),
         spec_orientation_difference (snd ia) (snd jb))
        # spec_search A B (insert (fst jb) claimed))"

definition spec_correspondences ::
  "(point \<times> real) list \<Rightarrow> (point \<times> real) list \<Rightarrow> correspondence list" where
  "spec_correspondences A B = spec_search (List.enumerate 0 A) (List.enumerate 0 B) {}"

subsection \<open>\<open>_calculate_match_confidence\<close>\<close>

text \<open>
  \<open>np.array\<close> is embedded for numeric entries only: an \<open>int\<close> or a finite \<open>float\<close>
  becomes a real number. For any other entry (a string, \<open>None\<close>, a bool, a nested list,
  \<open>NaN\<close>) numpy's coercion is not modelled and the entry counts as raising, which the
  function's own \<open>except Exception\<close> turns into the result 0.0.
\<close>

fun np_num :: "pyval \<Rightarrow> pyerr + real" where
  "np_num (PInt i) = Inr (real_of_int i)"
| "np_num (PFloat f) = (case float_val f of None \<Rightarrow> Inl ValueError | Some r \<Rightarrow> Inr r)"
| "np_num _ = Inl TypeError"

definition minutia_point :: "pyval \<Rightarrow> pyerr + point" where
  "minutia_point m =
     (case py_item m (S ''x'') of Inl e \<Rightarrow> Inl e
      | Inr vx \<Rightarrow>
     (case py_item m (S ''y'') of Inl e \<Rightarrow> Inl e
      | Inr vy \<Rightarrow>
     (case np_num vx of Inl e \<Rightarrow> Inl e
      | Inr rx \<Rightarrow>
     (case np_num vy of Inl e \<Rightarrow> Inl e
      | Inr ry \<Rightarrow> Inr (rx, ry)))))"

definition minutia_orientation :: "pyval \<Rightarrow> pyerr + real" where
  "minutia_orientation m =
     (case py_get m (S ''orientation'') (PInt 0) of Inl e \<Rightarrow> Inl e | Inr v \<Rightarrow> np_num v)"

definition distance_score :: "correspondence \<Rightarrow> real" where
  "distance_score m = (case m of (i, j, distance, orientation_diff) \<Rightarrow>
                         max 0 (1 - distance / max_distance_threshold))"

definition orientation_score :: "correspondence \<Rightarrow> real" where
  "orientation_score m = (case m of (i, j, distance, orientation_diff) \<Rightarrow>
                            max 0 (1 - \<bar>orientation_diff\<bar> / orientation_tolerance))"

definition confidence_of_matches :: "nat \<Rightarrow> nat \<Rightarrow> correspondence list \<Rightarrow> real" where
  "confidence_of_matches len1 len2 matches =
     (if length matches = 0 then 0
      else
        let match_count = length matches;
            total_minutiae = max len1 len2;
            match_ratio = real match_count / real total_minutiae;
            total_distance_score = fold (\<lambda>m acc. acc + distance_score m) matches 0;
            total_orientation_score = fold (\<lambda>m acc. acc + orientation_score m) matches 0;
            avg_distance_score = total_distance_score / real match_count;
            avg_orientation_score = total_orientation_score / real match_count;
            confidence = 4 / 10 * match_ratio + 3 / 10 * avg_distance_score
                         + 3 / 10 * avg_orientation_score;
            confidence' = (if match_count \<ge> 15 then confidence + 1 / 10
                           else if match_count \<ge> 10 then confidence + 5 / 100
                           else confidence)
        in min confidence' 1)"

definition calculate_match_confidence :: "pyval \<Rightarrow> pyval \<Rightarrow> real" where
  "calculate_match_confidence minutiae1 minutiae2 =
     (if \<not> truthy minutiae1 \<or> \<not> truthy minutiae2 then 0
      else
        (case py_iter minutiae1 of Inl e \<Rightarrow> 0 | Inr ms1 \<Rightarrow>
        (case py_iter minutiae2 of Inl e \<Rightarrow> 0 | Inr ms2 \<Rightarrow>
        (case traverse minutia_point ms1 of Inl e \<Rightarrow> 0 | Inr points1 \<Rightarrow>
        (case traverse minutia_point ms2 of Inl e \<Rightarrow> 0 | Inr points2 \<Rightarrow>
        (case traverse minutia_orientation ms1 of Inl e \<Rightarrow> 0 | Inr orientations1 \<Rightarrow>
        (case traverse minutia_orientation ms2 of Inl e \<Rightarrow> 0 | Inr orientations2 \<Rightarrow>
           confidence_of_matches (length ms1) (length ms2)
             (find_minutiae_correspondences points1 points2 orientations1 orientations2))))))))"

section \<open>Encodings used by the template codec\<close>

text \<open>
  A template is \<open>base64(utf8(json.dumps(template_data)))\<close>. The three library layers
  are embedded here: bytes are natural numbers below 256.
\<close>

subsection \<open>\<open>base64.b64encode\<close> and \<open>base64.b64decode\<close>\<close>

definition b64_char :: "nat \<Rightarrow> nat" where
  "b64_char n =
     (if n < 26 then 65 + n
      else if n < 52 then 97 + (n - 26)
      else if n < 62 then 48 + (n - 52)
      else if n = 62 then 43 else 47)"

fun b64encode :: "nat list \<Rightarrow> nat list" where
  "b64encode [] = []"
| "b64encode [a] = [b64_char (a div 4), b64_char ((a mod 4) * 16), 61, 61]"
| "b64encode [a, b] =
     [b64_char (a div 4), b64_char ((a mod 4) * 16 + b div 16), b64_char ((b mod 16) * 4), 61]"
| "b64encode (a # b # c # rest) =
     [b64_char (a div 4), b64_char ((a mod 4) * 16 + b div 16),
      b64_char ((b mod 16) * 4 + c div 64), b64_char (c mod 64)] @ b64encode rest"

definition table_a2b_base64 :: "nat \<Rightarrow> nat option" where
  "table_a2b_base64 ch =
     (if 65 \<le> ch \<and> ch \<le> 90 then Some (ch - 65)
      else if 97 \<le> ch \<and> ch \<le> 122 then Some (ch - 97 + 26)
      else if 48 \<le> ch \<and> ch \<le> 57 then Some (ch - 48 + 52)
      else if ch = 43 then Some 62
      else if ch = 47 then Some 63
      else None)"

fun a2b_base64 :: "nat list \<Rightarrow> nat \<Rightarrow> nat \<Rightarrow> nat \<Rightarrow> nat list \<Rightarrow> nat list option" where
  "a2b_base64 [] quad_pos leftchar pads bin_data =
     (if quad_pos \<noteq> 0 then None else Some bin_data)"
| "a2b_base64 (this_ch # rest) quad_pos leftchar pads bin_data =
     (if this_ch = 61 then
        (if quad_pos \<ge> 2 \<and> quad_pos + (pads + 1) \<ge> 4 then Some bin_data
         else a2b_base64 rest quad_pos leftchar (if quad_pos \<ge> 2 then pads + 1 else pads) bin_data)
      else
        (case table_a2b_base64 this_ch of
           None \<Rightarrow> a2b_base64 rest quad_pos leftchar pads bin_data
         | Some v \<Rightarrow>
             if quad_pos = 0 then a2b_base64 rest 1 v 0 bin_data
             else if quad_pos = 1 then
               a2b_base64 rest 2 (v mod 16) 0 (bin_data @ [leftchar * 4 + v div 16])
             else if quad_pos = 2 then
               a2b_base64 rest 3 (v mod 4) 0 (bin_data @ [leftchar * 16 + v div 4])
             else
               a2b_base64 rest 0 0 0 (bin_data @ [leftchar * 64 + v])))"

definition b64decode :: "pystr \<Rightarrow> nat list option" where
  "b64decode s = (if \<exists>c \<in> set s. c \<ge> 128 then None else a2b_base64 s 0 0 0 [])"

subsection \<open>\<open>str.encode()\<close> and \<open>bytes.decode()\<close> (UTF-8, strict)\<close>

definition continuation :: "nat \<Rightarrow> bool" where
  "continuation b \<longleftrightarrow> 128 \<le> b \<and> b \<le> 191"

fun bytes_decode :: "nat list \<Rightarrow> pystr option" where
  "bytes_decode [] = Some []"
| "bytes_decode (b0 # bs) =
     (if b0 < 128 then map_option ((#) b0) (bytes_decode bs)
      else if 194 \<le> b0 \<and> b0 \<le> 223 then
        (case bs of
           b1 # r \<Rightarrow>
             if continuation b1
             then map_option ((#) ((b0 - 192) * 64 + (b1 - 128))) (bytes_decode r)
             else None
         | _ \<Rightarrow> None)
      else if 224 \<le> b0 \<and> b0 \<le> 239 then
        (case bs of
           b1 # b2 # r \<Rightarrow>
             if continuation b1 \<and> continuation b2
                \<and> (b0 = 224 \<longrightarrow> 160 \<le> b1) \<and> (b0 = 237 \<longrightarrow> b1 \<le> 159)
             then map_option ((#) ((b0 - 224) * 4096 + (b1 - 128) * 64 + (b2 - 128)))
                    (bytes_decode r)
             else None
         | _ \<Rightarrow> None)
      else if 240 \<le> b0 \<and> b0 \<le> 244 then
        (case bs of
           b1 # b2 # b3 # r \<Rightarrow>
             if continuation b1 \<and> continuation b2 \<and> continuation b3
                \<and> (b0 = 240 \<longrightarrow> 144 \<le> b1) \<and> (b0 = 244 \<longrightarrow> b1 \<le> 143)
             then map_option
                    ((#) ((b0 - 240) * 262144 + (b1 - 128) * 4096 + (b2 - 128) * 64 + (b3 - 128)))
                    (bytes_decode r)
             else None
         | _ \<Rightarrow> None)
      else None)"

definition encode_code_point :: "nat \<Rightarrow> nat list option" where
  "encode_code_point c =
     (if c < 128 then Some [c]
      else if c < 2048 then Some [192 + c div 64, 128 + c mod 64]
      else if 55296 \<le> c \<and> c \<le> 57343 then None
      else if c < 65536 then Some [224 + c div 4096, 128 + (c div 64) mod 64, 128 + c mod 64]
      else if c < 1114112 then
        Some [240 + c div 262144, 128 + (c div 4096) mod 64, 128 + (c div 64) mod 64, 128 + c mod 64]
      else None)"

fun str_encode :: "pystr \<Rightarrow> nat list option" where
  "str_encode [] = Some []"
| "str_encode (c # s) =
     (case encode_code_point c of None \<Rightarrow> None
      | Some bs \<Rightarrow> map_option ((@) bs) (str_encode s))"

subsection \<open>\<open>json.dumps(template_data, separators=(',', ':'))\<close>\<close>

function nat_repr :: "nat \<Rightarrow> pystr" where
  "nat_repr n = (if n < 10 then [48 + n] else nat_repr (n div 10) @ [48 + n mod 10])"
  by pat_completeness auto
termination
  by (relation "measure id") auto

definition int_repr :: "int \<Rightarrow> pystr" where
  "int_repr i = (if i < 0 then 45 # nat_repr (nat (- i)) else nat_repr (nat i))"

definition hex_digit :: "nat \<Rightarrow> nat" where
  "hex_digit d = (if d < 10 then 48 + d else 97 + (d - 10))"

definition u_escape :: "nat \<Rightarrow> pystr" where
  "u_escape n =
     [92, 117, hex_digit (n div 4096 mod 16), hex_digit (n div 256 mod 16),
      hex_digit (n div 16 mod 16), hex_digit (n mod 16)]"

definition escape_ascii :: "nat \<Rightarrow> pystr" where
  "escape_ascii c =
     (if c = 34 then [92, 34]
      else if c = 92 then [92, 92]
      else if c = 10 then [92, 110]
      else if c = 13 then [92, 114]
      else if c = 9 then [92, 116]
      else if c = 8 then [92, 98]
      else if c = 12 then [92, 102]
      else if 32 \<le> c \<and> c \<le> 126 then [c]
      else if c < 65536 then u_escape c
      else u_escape (55296 + (c - 65536) div 1024 mod 1024)
           @ u_escape (56320 + (c - 65536) mod 1024))"

definition encode_basestring_ascii :: "pystr \<Rightarrow> pystr" where
  "encode_basestring_ascii s = 34 # concat (map escape_ascii s) @ [34]"

fun join :: "pystr \<Rightarrow> pystr list \<Rightarrow> pystr" where
  "join sep [] = []"
| "join sep [x] = x"
| "join sep (x # y # ys) = x @ sep @ join sep (y # ys)"

fun json_dumps :: "pyval \<Rightarrow> pystr" where
  "json_dumps PNone = S ''null''"
| "json_dumps (PBool b) = (if b then S ''true'' else S ''false'')"
| "json_dumps (PInt i) = int_repr i"
| "json_dumps (PFloat f) = f"
| "json_dumps (PStr s) = encode_basestring_ascii s"
| "json_dumps (PList xs) = [91] @ join [44] (map json_dumps xs) @ [93]"
| "json_dumps (PDict kvs) =
     [123] @ join [44] (map (\<lambda>kv. encode_basestring_ascii (fst kv) @ [58] @ json_dumps (snd kv)) kvs)
     @ [125]"

subsection \<open>\<open>json.loads\<close>\<close>

definition hex_val :: "nat \<Rightarrow> nat option" where
  "hex_val c =
     (if 48 \<le> c \<and> c \<le> 57 then Some (c - 48)
      else if 97 \<le> c \<and> c \<le> 102 then Some (c - 87)
      else if 65 \<le> c \<and> c \<le> 70 then Some (c - 55)
      else None)"

definition hex4 :: "nat \<Rightarrow> nat \<Rightarrow> nat \<Rightarrow> nat \<Rightarrow> nat option" where
  "hex4 h1 h2 h3 h4 =
     (case (hex_val h1, hex_val h2, hex_val h3, hex_val h4) of
        (Some a, Some b, Some c, Some d) \<Rightarrow> Some (a * 4096 + b * 256 + c * 16 + d)
      | _ \<Rightarrow> None)"

definition simple_escape :: "nat \<Rightarrow> nat option" where
  "simple_escape e =
     (if e = 34 then Some 34
      else if e = 92 then Some 92
      else if e = 47 then Some 47
      else if e = 98 then Some 8
      else if e = 102 then Some 12
      else if e = 110 then Some 10
      else if e = 114 then Some 13
      else if e = 116 then Some 9
      else None)"

definition string_cons :: "nat \<Rightarrow> (pystr \<times> pystr) option \<Rightarrow> (pystr \<times> pystr) option" where
  "string_cons c r = (case r of None \<Rightarrow> None | Some (str, rest) \<Rightarrow> Some (c # str, rest))"

fun scanstring :: "pystr \<Rightarrow> (pystr \<times> pystr) option" where
  "scanstring [] = None"
| "scanstring (c # s) =
     (if c = 34 then Some ([], s)
      else if c = 92 then
        (case s of
           [] \<Rightarrow> None
         | e # s1 \<Rightarrow>
             if e = 117 then
               (case s1 of
                  h1 # h2 # h3 # h4 # s2 \<Rightarrow>
                    (case hex4 h1 h2 h3 h4 of
                       None \<Rightarrow> None
                     | Some u \<Rightarrow>
                         if 55296 \<le> u \<and> u \<le> 56319 then
                           (case s2 of
                              b # v # g1 # g2 # g3 # g4 # s3 \<Rightarrow>
                                if b = 92 \<and> v = 117 then
                                  (case hex4 g1 g2 g3 g4 of
                                     None \<Rightarrow> None
                                   | Some u2 \<Rightarrow>
                                       if 56320 \<le> u2 \<and> u2 \<le> 57343
                                       then string_cons
                                              (65536 + (u - 55296) * 1024 + (u2 - 56320))
                                              (scanstring s3)
                                       else string_cons u (scanstring s2))
                                else string_cons u (scanstring s2)
                            | _ \<Rightarrow> string_cons u (scanstring s2))
                         else string_cons u (scanstring s2))
                | _ \<Rightarrow> None)
             else
               (case simple_escape e of
                  None \<Rightarrow> None
                | Some ch \<Rightarrow> string_cons ch (scanstring s1)))
      else if c < 32 then None
      else string_cons c (scanstring s))"

definition skip_ws :: "pystr \<Rightarrow> pystr" where
  "skip_ws s = dropWhile (\<lambda>c. c = 32 \<or> c = 9 \<or> c = 10 \<or> c = 13) s"

definition scan_number :: "pystr \<Rightarrow> (pyval \<times> pystr) option" where
  "scan_number s =
     (case match_number s of
        None \<Rightarrow> None
      | Some (i, f, e, r) \<Rightarrow>
          if f \<noteq> [] \<or> e \<noteq> [] then Some (PFloat (i @ f @ e), r)
          else Some (PInt (int_val i), r))"

definition dict_set :: "(pystr \<times> pyval) list \<Rightarrow> pystr \<Rightarrow> pyval \<Rightarrow> (pystr \<times> pyval) list" where
  "dict_set kvs k v =
     (if k \<in> fst ` set kvs then map (\<lambda>kv. if fst kv = k then (k, v) else kv) kvs
      else kvs @ [(k, v)])"

fun scan_once :: "nat \<Rightarrow> pystr \<Rightarrow> (pyval \<times> pystr) option"
  and parse_array :: "nat \<Rightarrow> pystr \<Rightarrow> pyval list \<Rightarrow> (pyval \<times> pystr) option"
  and parse_object :: "nat \<Rightarrow> pystr \<Rightarrow> (pystr \<times> pyval) list \<Rightarrow> (pyval \<times> pystr) option"
where
  "scan_once 0 s = None"
| "scan_once (Suc n) s =
     (case s of
        [] \<Rightarrow> None
      | c # r \<Rightarrow>
          if c = 34 then
            (case scanstring r of None \<Rightarrow> None | Some (str, t) \<Rightarrow> Some (PStr str, t))
          else if c = 123 then
            (if take 1 (skip_ws r) = [125] then Some (PDict [], drop 1 (skip_ws r))
             else parse_object n (skip_ws r) [])
          else if c = 91 then
            (if take 1 (skip_ws r) = [93] then Some (PList [], drop 1 (skip_ws r))
             else parse_array n (skip_ws r) [])
          else if take 4 s = S ''null'' then Some (PNone, drop 4 s)
          else if take 4 s = S ''true'' then Some (PBool True, drop 4 s)
          else if take 5 s = S ''false'' then Some (PBool False, drop 5 s)
          else if take 3 s = S ''NaN'' then Some (PFloat (S ''NaN''), drop 3 s)
          else if take 8 s = S ''Infinity'' then Some (PFloat (S ''Infinity''), drop 8 s)
          else if take 9 s = S ''-Infinity'' then Some (PFloat (S ''-Infinity''), drop 9 s)
          else scan_number s)"
| "parse_array 0 s acc = None"
| "parse_array (Suc n) s acc =
     (case scan_once n s of
        None \<Rightarrow> None
      | Some (v, r) \<Rightarrow>
          (case skip_ws r of
             [] \<Rightarrow> None
           | c # t \<Rightarrow>
               if c = 93 then Some (PList (acc @ [v]), t)
               else if c = 44 then parse_array n (skip_ws t) (acc @ [v])
               else None))"
| "parse_object 0 s acc = None"
| "parse_object (Suc n) s acc =
     (case s of
        [] \<Rightarrow> None
      | q # r \<Rightarrow>
          if q \<noteq> 34 then None
          else
            (case scanstring r of
               None \<Rightarrow> None
             | Some (key, r1) \<Rightarrow>
                 (case skip_ws r1 of
                    [] \<Rightarrow> None
                  | d # r2 \<Rightarrow>
                      if d \<noteq> 58 then None
                      else
                        (case scan_once n (skip_ws r2) of
                           None \<Rightarrow> None
                         | Some (v, r3) \<Rightarrow>
                             (case skip_ws r3 of
                                [] \<Rightarrow> None
                              | c # t \<Rightarrow>
                                  if c = 125 then Some (PDict (dict_set acc key v), t)
                                  else if c = 44 then parse_object n (skip_ws t) (dict_set acc key v)
                                  else None)))))"

definition json_loads :: "pystr \<Rightarrow> pyval option" where
  "json_loads s =
     (case scan_once (Suc (length s)) (skip_ws s) of
        None \<Rightarrow> None
      | Some (obj, r) \<Rightarrow> if skip_ws r = [] then Some obj else None)"

subsection \<open>Values written without escapes\<close>

text \<open>
  The values the round-trip lemmas cover: \<open>None\<close>, bools, ints, floats given by a
  number literal, strings of printable ASCII characters other than the double quote and
  the backslash (which \<open>json.dumps\<close> writes unescaped), and lists and dicts of such
  values, a dict having distinct keys. Every template \<open>_generate_template\<close> builds from
  the minutiae of \<open>_extract_minutiae\<close> is of this kind.
\<close>

definition plain_char :: "nat \<Rightarrow> bool" where
  "plain_char c \<longleftrightarrow> 32 \<le> c \<and> c \<le> 126 \<and> c \<noteq> 34 \<and> c \<noteq> 92"

fun plain_json :: "pyval \<Rightarrow> bool" where
  "plain_json PNone = True"
| "plain_json (PBool b) = True"
| "plain_json (PInt i) = True"
| "plain_json (PFloat f) = float_lit f"
| "plain_json (PStr s) = list_all plain_char s"
| "plain_json (PList xs) = list_all plain_json xs"
| "plain_json (PDict kvs) =
     (distinct (map fst kvs)
      \<and> list_all (\<lambda>kv. list_all plain_char (fst kv) \<and> plain_json (snd kv)) kvs)"

section \<open>The template codec\<close>

text \<open>
  \<open>_decode_template\<close> is defined twice, with the same body, in
  \<open>services/fingerprint_processor.py\<close> and in \<open>services/matcher.py\<close>:
  \<open>json.loads(base64.b64decode(template).decode())\<close> inside \<open>try\<close>, with
  \<open>except Exception: return None\<close>. An argument that is not a string makes
  \<open>b64decode\<close> raise \<open>TypeError\<close>. The function returns a Python value: the value
  \<open>json.loads\<close> parsed, or \<open>None\<close> after an exception of any of the three library
  calls. \<open>None\<close> is \<open>PNone\<close> here, which is also what the JSON text \<open>null\<close> parses to:
  the callers test the result with \<open>if not ...\<close> and cannot tell the two apart.
\<close>

definition decode_template :: "pyval \<Rightarrow> pyval" where
  "decode_template template =
     (case template of
        PStr s \<Rightarrow>
          (case b64decode s of
             None \<Rightarrow> PNone
           | Some bs \<Rightarrow>
               (case bytes_decode bs of
                  None \<Rightarrow> PNone
                | Some template_json \<Rightarrow>
                    (case json_loads template_json of
                       None \<Rightarrow> PNone
                     | Some template_data \<Rightarrow> template_data)))
      | _ \<Rightarrow> PNone)"

definition template_version :: pystr where
  "template_version = S ''1.0''"

definition min_quality_threshold :: real where
  "min_quality_threshold = 6 / 10"

text \<open>
  \<open>_generate_template(minutiae, quality, image_shape)\<close>: \<open>image_shape\<close> is the shape of
  the grey-scale image, a tuple of two ints, which \<open>json.dumps\<close> writes as a list.
\<close>

definition template_data :: "pyval list \<Rightarrow> pystr \<Rightarrow> int \<times> int \<Rightarrow> pyval" where
  "template_data minutiae quality image_shape =
     PDict [(S ''version'', PStr template_version),
            (S ''quality'', PFloat quality),
            (S ''image_shape'', PList [PInt (fst image_shape), PInt (snd image_shape)]),
            (S ''minutiae'', PList minutiae),
            (S ''minutiae_count'', PInt (int (length minutiae))),
            (S ''created_at'', PNone)]"

definition generate_template :: "pyval list \<Rightarrow> pystr \<Rightarrow> int \<times> int \<Rightarrow> pystr option" where
  "generate_template minutiae quality image_shape =
     (let template_json = json_dumps (template_data minutiae quality image_shape) in
      case str_encode template_json of
        None \<Rightarrow> None
      | Some bs \<Rightarrow> bytes_decode (b64encode bs))"

subsection \<open>\<open>verify_quality\<close> and \<open>_calculate_quality\<close>\<close>

text \<open>
  \<open>quality >= self.min_quality_threshold\<close> and \<open>minutiae_count >= 10\<close> compare a value
  read from the template with a number: an int, a bool or a float compares, anything else
  raises \<open>TypeError\<close>. \<open>NaN\<close> compares false with everything, \<open>Infinity\<close> is above every
  number and \<open>-Infinity\<close> below.
\<close>

definition py_ge :: "pyval \<Rightarrow> real \<Rightarrow> pyerr + bool" where
  "py_ge v t =
     (case v of
        PInt i \<Rightarrow> Inr (t \<le> real_of_int i)
      | PBool b \<Rightarrow> Inr (t \<le> (if b then 1 else 0))
      | PFloat f \<Rightarrow> (case float_val f of
                       Some r \<Rightarrow> Inr (t \<le> r)
                     | None \<Rightarrow> Inr (f = S ''Infinity''))
      | _ \<Rightarrow> Inl TypeError)"

datatype quality_result =
    QualityError
  | QualityResult (qr_is_valid: bool) (qr_quality: pyval) (qr_minutiae_count: pyval)

definition verify_quality :: "pyval \<Rightarrow> quality_result" where
  "verify_quality template =
     (let data = decode_template template in
      if \<not> truthy data then QualityError
      else
        (case py_get data (S ''quality'') (PFloat (S ''0.0'')) of
           Inl e \<Rightarrow> QualityError
         | Inr q \<Rightarrow>
             (case py_get data (S ''minutiae_count'') (PInt 0) of
                Inl e \<Rightarrow> QualityError
              | Inr n \<Rightarrow>
                  (case py_ge q min_quality_threshold of
                     Inl e \<Rightarrow> QualityError
                   | Inr False \<Rightarrow> QualityResult False q n
                   | Inr True \<Rightarrow>
                       (case py_ge n 10 of
                          Inl e \<Rightarrow> QualityError
                        | Inr b \<Rightarrow> QualityResult b q n)))))"

text \<open>
  \<open>_calculate_quality(image, minutiae)\<close>: the three image statistics come from numpy and
  OpenCV (\<open>np.std(image)\<close>, the variance of \<open>cv2.Laplacian\<close>, the share of \<open>cv2.Canny\<close>
  edge pixels) and are parameters here.
\<close>

definition calculate_quality :: "nat \<Rightarrow> real \<Rightarrow> real \<Rightarrow> real \<Rightarrow> real" where
  "calculate_quality len_minutiae std laplacian_var edge_density =
     (let minutiae_score = min (real len_minutiae / 30) 1;
          contrast = std / 255;
          sharpness_score = min (laplacian_var / 1000) 1;
          quality = minutiae_score * (3 / 10) + contrast * (25 / 100)
                    + sharpness_score * (25 / 100) + edge_density * (2 / 10)
      in min (max quality 0) 1)"

section \<open>Best-match search (\<open>match_fingerprint\<close>, \<open>services/matcher.py\<close>)\<close>

record match_result =
  mr_studentId :: pyval
  mr_confidence :: real

text \<open>
  One round of the loop over \<open>templates\<close>, up to the computation of the confidence:
  \<open>Inr None\<close> is \<open>continue\<close>, \<open>Inl\<close> an exception, which leaves the loop and is caught by
  the \<open>except Exception\<close> of \<open>match_fingerprint\<close>.
\<close>

definition candidate_confidence :: "pyval \<Rightarrow> pyval \<Rightarrow> pyerr + (pyval \<times> real) option" where
  "candidate_confidence input_minutiae template_info =
     (case py_get template_info (S ''studentId'') PNone of
        Inl e \<Rightarrow> Inl e
      | Inr student_id \<Rightarrow>
     (case py_get template_info (S ''template'') PNone of
        Inl e \<Rightarrow> Inl e
      | Inr stored_template \<Rightarrow>
          if \<not> truthy student_id \<or> \<not> truthy stored_template then Inr None
          else
            (let stored_data = decode_template stored_template in
             if \<not> truthy stored_data then Inr None
             else
               (case py_get stored_data (S ''minutiae'') (PList []) of
                  Inl e \<Rightarrow> Inl e
                | Inr stored_minutiae \<Rightarrow>
                    if \<not> truthy stored_minutiae then Inr None
                    else Inr (Some (student_id,
                                    calculate_match_confidence input_minutiae stored_minutiae))))))"

definition update_best ::
  "pyval \<times> real \<Rightarrow> match_result option \<times> real \<Rightarrow> match_result option \<times> real" where
  "update_best sc st =
     (case sc of (student_id, confidence) \<Rightarrow>
        if confidence > snd st \<and> confidence \<ge> match_threshold
        then (Some \<lparr>mr_studentId = student_id, mr_confidence = confidence\<rparr>, confidence)
        else st)"

fun match_loop ::
  "pyval \<Rightarrow> pyval list \<Rightarrow> match_result option \<times> real \<Rightarrow> pyerr + (match_result option \<times> real)" where
  "match_loop input_minutiae [] st = Inr st"
| "match_loop input_minutiae (template_info # templates) st =
     (case candidate_confidence input_minutiae template_info of
        Inl e \<Rightarrow> Inl e
      | Inr None \<Rightarrow> match_loop input_minutiae templates st
      | Inr (Some sc) \<Rightarrow> match_loop input_minutiae templates (update_best sc st))"

definition match_fingerprint :: "pyval \<Rightarrow> pyval list \<Rightarrow> match_result option" where
  "match_fingerprint input_template templates =
     (let input_data = decode_template input_template in
      if \<not> truthy input_data then None
      else
        (case py_get input_data (S ''minutiae'') (PList []) of
           Inl e \<Rightarrow> None
         | Inr input_minutiae \<Rightarrow>
             if \<not> truthy input_minutiae then None
             else
               (case match_loop input_minutiae templates (None, 0) of
                  Inl e \<Rightarrow> None
                | Inr (best_match, best_confidence) \<Rightarrow> best_match)))"

subsection \<open>Best-match selection in the words of the specification\<close>

text \<open>
  Section 4.6: the candidates are taken in input order, each one skipped (\<open>None\<close>) or
  evaluated to an identity and a confidence. The result is the candidate with the highest
  confidence, provided that confidence is at least the match threshold; among candidates of
  equal confidence the first seen wins; there is no match when no candidate reaches the
  threshold.
\<close>

definition spec_best_match :: "(pyval \<times> real) option list \<Rightarrow> match_result option \<Rightarrow> bool" where
  "spec_best_match evals res =
     (case res of
        None \<Rightarrow> (\<forall>k < length evals. \<forall>s c. evals ! k = Some (s, c) \<longrightarrow> c < match_threshold)
      | Some r \<Rightarrow>
          (\<exists>k < length evals.
             evals ! k = Some (mr_studentId r, mr_confidence r)
             \<and> match_threshold \<le> mr_confidence r
             \<and> (\<forall>k' < length evals. \<forall>s c. evals ! k' = Some (s, c) \<longrightarrow>
                    c \<le> mr_confidence r \<and> (k' < k \<longrightarrow> c < mr_confidence r))))"

section \<open>Properties of the matcher\<close>

subsection \<open>Bounds of the confidence\<close>

lemma fold_add_nonneg:
  "(\<And>m. m \<in> set ms \<Longrightarrow> 0 \<le> f m) \<Longrightarrow> (0::real) \<le> acc \<Longrightarrow> 0 \<le> fold (\<lambda>m acc. acc + f m) ms acc"
  by (induction ms arbitrary: acc) auto

lemma distance_score_nonneg: "0 \<le> distance_score m"
  by (cases m) (simp add: distance_score_def)

lemma orientation_score_nonneg: "0 \<le> orientation_score m"
  by (cases m) (simp add: orientation_score_def)

lemma confidence_of_matches_bounds:
  "0 \<le> confidence_of_matches len1 len2 matches \<and> confidence_of_matches len1 len2 matches \<le> 1"
proof (cases "length matches = 0")
  case True
  then show ?thesis by (simp add: confidence_of_matches_def)
next
  case False
  have d: "0 \<le> fold (\<lambda>m acc. acc + distance_score m) matches 0"
    by (rule fold_add_nonneg) (simp_all add: distance_score_nonneg)
  have o: "0 \<le> fold (\<lambda>m acc. acc + orientation_score m) matches 0"
    by (rule fold_add_nonneg) (simp_all add: orientation_score_nonneg)
  have r: "0 \<le> real (length matches) / real (max len1 len2)" by simp
  have da: "0 \<le> fold (\<lambda>m acc. acc + distance_score m) matches 0 / real (length matches)"
    using d by simp
  have oa: "0 \<le> fold (\<lambda>m acc. acc + orientation_score m) matches 0 / real (length matches)"
    using o by simp
  show ?thesis
    using False r da oa by (simp add: confidence_of_matches_def Let_def)
qed

lemma calculate_match_confidence_bounds:
  "0 \<le> calculate_match_confidence a b \<and> calculate_match_confidence a b \<le> 1"
  using confidence_of_matches_bounds
  by (simp add: calculate_match_confidence_def split: sum.splits)

subsection \<open>Angle normalisation\<close>

declare normalize_down.simps [simp del] normalize_up.simps [simp del]

lemma normalize_down_le: "normalize_down a \<le> pi"
proof (induction a rule: normalize_down.induct)
  case (1 angle)
  then show ?case by (subst normalize_down.simps) auto
qed

lemma normalize_down_ge: "- pi \<le> a \<Longrightarrow> - pi \<le> normalize_down a"
proof (induction a rule: normalize_down.induct)
  case (1 angle)
  then show ?case by (subst normalize_down.simps) auto
qed

lemma normalize_down_cong: "\<exists>k::int. normalize_down a = a + 2 * pi * of_int k"
proof (induction a rule: normalize_down.induct)
  case (1 angle)
  show ?case
  proof (cases "angle > pi")
    case True
    with 1 obtain k :: int where "normalize_down (angle - 2 * pi) = angle - 2 * pi + 2 * pi * of_int k"
      by blast
    then have "normalize_down angle = angle + 2 * pi * of_int (k - 1)"
      using True by (subst normalize_down.simps) (simp add: algebra_simps)
    then show ?thesis by blast
  next
    case False
    then have "normalize_down angle = angle + 2 * pi * of_int 0"
      by (subst normalize_down.simps) simp
    then show ?thesis by blast
  qed
qed

lemma normalize_up_ge: "- pi \<le> normalize_up a"
proof (induction a rule: normalize_up.induct)
  case (1 angle)
  then show ?case by (subst normalize_up.simps) auto
qed

lemma normalize_up_le: "a \<le> pi \<Longrightarrow> normalize_up a \<le> pi"
proof (induction a rule: normalize_up.induct)
  case (1 angle)
  then show ?case by (subst normalize_up.simps) auto
qed

lemma normalize_up_cong: "\<exists>k::int. normalize_up a = a + 2 * pi * of_int k"
proof (induction a rule: normalize_up.induct)
  case (1 angle)
  show ?case
  proof (cases "angle < - pi")
    case True
    with 1 obtain k :: int where "normalize_up (angle + 2 * pi) = angle + 2 * pi + 2 * pi * of_int k"
      by blast
    then have "normalize_up angle = angle + 2 * pi * of_int (k + 1)"
      using True by (subst normalize_up.simps) (simp add: algebra_simps)
    then show ?thesis by blast
  next
    case False
    then have "normalize_up angle = angle + 2 * pi * of_int 0"
      by (subst normalize_up.simps) simp
    then show ?thesis by blast
  qed
qed

lemma normalize_angle_range: "- pi \<le> normalize_angle a \<and> normalize_angle a \<le> pi"
  by (simp add: normalize_angle_def normalize_up_ge normalize_up_le normalize_down_le)

lemma normalize_angle_cong: "\<exists>k::int. normalize_angle a = a + 2 * pi * of_int k"
proof -
  obtain k :: int where k: "normalize_down a = a + 2 * pi * of_int k"
    using normalize_down_cong by blast
  obtain m :: int where m: "normalize_up (normalize_down a) = normalize_down a + 2 * pi * of_int m"
    using normalize_up_cong by blast
  have "normalize_angle a = normalize_down a + 2 * pi * of_int m"
    unfolding normalize_angle_def by (rule m)
  also have "\<dots> = a + 2 * pi * of_int (k + m)"
    by (simp add: k algebra_simps)
  finally have "normalize_angle a = a + 2 * pi * of_int (k + m)" .
  then show ?thesis by blast
qed

lemma spec_normalize_range: "- pi < spec_normalize t \<and> spec_normalize t \<le> pi"
proof -
  define u where "u = (t - pi) / (2 * pi)"
  have t: "t = pi + 2 * pi * u" by (simp add: u_def field_simps)
  have c1: "u \<le> of_int \<lceil>u\<rceil>" by linarith
  have c2: "of_int \<lceil>u\<rceil> < u + 1" by linarith
  have "spec_normalize t = pi + 2 * pi * (u - of_int \<lceil>u\<rceil>)"
    unfolding spec_normalize_def u_def[symmetric] by (simp add: t algebra_simps)
  moreover have "2 * pi * (u - of_int \<lceil>u\<rceil>) \<le> 0"
    using c1 by (simp add: mult_le_0_iff)
  moreover have "- (2 * pi) < 2 * pi * (u - of_int \<lceil>u\<rceil>)"
  proof -
    have "- 1 < u - of_int \<lceil>u\<rceil>" using c2 by linarith
    then have "2 * pi * (- 1) < 2 * pi * (u - of_int \<lceil>u\<rceil>)"
      by (intro mult_strict_left_mono) simp_all
    then show ?thesis by simp
  qed
  ultimately show ?thesis by linarith
qed

lemma two_pi_multiple_small:
  fixes n :: int
  assumes "- (2 * pi) \<le> 2 * pi * of_int n" "2 * pi * of_int n < 2 * pi"
  shows "n = - 1 \<or> n = 0"
proof -
  have "(2 * pi) * (- 1) \<le> (2 * pi) * of_int n" using assms(1) by simp
  then have "- 1 \<le> (of_int n :: real)"
    by (rule mult_left_le_imp_le) simp
  moreover have "(2 * pi) * of_int n < (2 * pi) * 1" using assms(2) by simp
  then have "(of_int n :: real) < 1"
    by (rule mult_left_less_imp_less) simp
  ultimately show ?thesis by linarith
qed

lemma abs_normalize_angle: "\<bar>normalize_angle t\<bar> = \<bar>spec_normalize t\<bar>"
proof -
  obtain k :: int where k: "normalize_angle t = t + 2 * pi * of_int k"
    using normalize_angle_cong by blast
  have s: "spec_normalize t = t + 2 * pi * of_int (- \<lceil>(t - pi) / (2 * pi)\<rceil>)"
    by (simp add: spec_normalize_def)
  define n where "n = k + \<lceil>(t - pi) / (2 * pi)\<rceil>"
  have d: "normalize_angle t - spec_normalize t = 2 * pi * of_int n"
    by (simp add: k s n_def algebra_simps)
  have "- (2 * pi) \<le> normalize_angle t - spec_normalize t"
    using normalize_angle_range[of t] spec_normalize_range[of t] by linarith
  moreover have "normalize_angle t - spec_normalize t < 2 * pi"
    using normalize_angle_range[of t] spec_normalize_range[of t] by linarith
  ultimately have "n = - 1 \<or> n = 0"
    using two_pi_multiple_small[of n] d by simp
  then show ?thesis
  proof
    assume "n = - 1"
    then have "normalize_angle t = spec_normalize t - 2 * pi" using d by simp
    with normalize_angle_range[of t] spec_normalize_range[of t]
    have "normalize_angle t = - pi" "spec_normalize t = pi" by linarith+
    then show ?thesis by simp
  next
    assume "n = 0"
    then show ?thesis using d by simp
  qed
qed

subsection \<open>The search refines the specification\<close>

lemma linalg_norm_spec:
  "linalg_norm (point_sub p1 p2) = spec_distance (p1, o1) (p2, o2)"
  by (simp add: linalg_norm_def point_sub_def spec_distance_def)

lemma orientation_diff_spec:
  "\<bar>normalize_angle (o1 - o2)\<bar> = spec_orientation_difference (p1, o1) (p2, o2)"
  by (simp add: spec_orientation_difference_def abs_normalize_angle)

lemma inner_body_spec:
  "inner_body i p1 o1 used e st =
     (if spec_survives used (p1, o1) e \<and> below_best (spec_cost (p1, o1) e) (snd st)
      then (Some (i, fst e, spec_distance (p1, o1) (snd e),
                  spec_orientation_difference (p1, o1) (snd e)),
            Some (spec_cost (p1, o1) e))
      else st)"
proof -
  obtain j p2 o2 where e: "e = (j, p2, o2)" by (cases e) auto
  show ?thesis
    unfolding e inner_body_def
    by (simp add: linalg_norm_spec[of p1 p2 o1 o2] orientation_diff_spec[of o1 o2 p1 p2]
        spec_survives_def spec_cost_def Let_def not_less mult.commute)
qed

lemma inner_fold_filter:
  "fold (inner_body i p1 o1 used) es st
   = fold (inner_body i p1 o1 used) (filter (spec_survives used (p1, o1)) es) st"
  by (induction es arbitrary: st) (simp_all add: inner_body_spec)

lemma arg_min_list_le:
  "x \<in> set xs \<Longrightarrow> f (arg_min_list f xs) \<le> (f x :: real)"
  by (metis List.finite_set Min_le empty_iff f_arg_min_list_f imageI finite_imageI list.set(1))

lemma arg_min_list_skip:
  fixes f :: "'a \<Rightarrow> real"
  assumes "f c0 \<le> f c"
  shows "arg_min_list f (c0 # c # cs) = arg_min_list f (c0 # cs)"
proof (cases cs)
  case Nil
  then show ?thesis using assms by simp
next
  case (Cons d ds)
  then show ?thesis using assms by (auto simp: Let_def)
qed

lemma arg_min_list_take:
  fixes f :: "'a \<Rightarrow> real"
  assumes "f c < f c0"
  shows "arg_min_list f (c0 # c # cs) = arg_min_list f (c # cs)"
proof -
  have "f (arg_min_list f (c # cs)) \<le> f c" by (rule arg_min_list_le) simp
  then show ?thesis using assms by (simp add: Let_def)
qed

lemma inner_fold_survivors:
  assumes "\<forall>e \<in> set cs. spec_survives used (p1, o1) e"
  shows "fold (inner_body i p1 o1 used) cs
           (Some (i, fst c0, spec_distance (p1, o1) (snd c0),
                  spec_orientation_difference (p1, o1) (snd c0)),
            Some (spec_cost (p1, o1) c0))
         = (let m = arg_min_list (spec_cost (p1, o1)) (c0 # cs) in
            (Some (i, fst m, spec_distance (p1, o1) (snd m),
                   spec_orientation_difference (p1, o1) (snd m)),
             Some (spec_cost (p1, o1) m)))"
  using assms
proof (induction cs arbitrary: c0)
  case Nil
  then show ?case by simp
next
  case (Cons c cs)
  have sv: "spec_survives used (p1, o1) c" and rest: "\<forall>e \<in> set cs. spec_survives used (p1, o1) e"
    using Cons.prems by simp_all
  show ?case
  proof (cases "spec_cost (p1, o1) c < spec_cost (p1, o1) c0")
    case True
    then show ?thesis
      using Cons.IH[OF rest, of c] sv
      by (simp add: inner_body_spec below_best_def arg_min_list_take del: arg_min_list.simps)
  next
    case False
    then have "spec_cost (p1, o1) c0 \<le> spec_cost (p1, o1) c" by simp
    then show ?thesis
      using Cons.IH[OF rest, of c0] sv False
      by (simp add: inner_body_spec below_best_def arg_min_list_skip del: arg_min_list.simps)
  qed
qed

lemma inner_fold_spec:
  "fst (fold (inner_body i p1 o1 used) es (None, None))
   = (let survivors = filter (spec_survives used (p1, o1)) es in
      if survivors = [] then None
      else let jb = arg_min_list (spec_cost (p1, o1)) survivors in
           Some (i, fst jb, spec_distance (p1, o1) (snd jb),
                 spec_orientation_difference (p1, o1) (snd jb)))"
proof (cases "filter (spec_survives used (p1, o1)) es")
  case Nil
  then show ?thesis by (subst inner_fold_filter) simp
next
  case (Cons c0 cs)
  have "\<forall>e \<in> set (filter (spec_survives used (p1, o1)) es). spec_survives used (p1, o1) e"
    by simp
  then have c0: "spec_survives used (p1, o1) c0"
    and all: "\<forall>e \<in> set cs. spec_survives used (p1, o1) e"
    unfolding Cons by simp_all
  show ?thesis
    apply (subst inner_fold_filter)
    using inner_fold_survivors[OF all, of i c0] c0
    by (simp add: Cons inner_body_spec below_best_def Let_def del: arg_min_list.simps)
qed

lemma outer_fold_spec:
  "fst (fold (outer_body points2 orientations2) A (ms, used))
   = ms @ spec_search A (List.enumerate 0 (zip points2 orientations2)) used"
proof (induction A arbitrary: ms used)
  case Nil
  then show ?case by simp
next
  case (Cons ia A)
  obtain i p1 o1 where ia: "ia = (i, p1, o1)" by (cases ia) auto
  define B where "B = List.enumerate 0 (zip points2 orientations2)"
  define survivors where "survivors = filter (spec_survives used (p1, o1)) B"
  define jb where "jb = arg_min_list (spec_cost (p1, o1)) survivors"
  have step: "outer_body points2 orientations2 ia (ms, used)
      = (if survivors = [] then (ms, used)
         else (ms @ [(i, fst jb, spec_distance (p1, o1) (snd jb),
                      spec_orientation_difference (p1, o1) (snd jb))],
               insert (fst jb) used))"
    by (simp add: ia outer_body_def inner_fold_spec Let_def B_def survivors_def jb_def
        del: arg_min_list.simps)
  have "fst (fold (outer_body points2 orientations2) (ia # A) (ms, used))
      = fst (fold (outer_body points2 orientations2) A
               (outer_body points2 orientations2 ia (ms, used)))"
    by simp
  also have "\<dots> = ms @ spec_search (ia # A) B used"
    unfolding step
    by (simp add: Cons.IH ia Let_def B_def[symmetric] survivors_def[symmetric] jb_def[symmetric]
        del: arg_min_list.simps)
  finally show ?case by (simp only: B_def)
qed

lemma find_minutiae_correspondences_spec:
  "find_minutiae_correspondences points1 points2 orientations1 orientations2
   = spec_correspondences (zip points1 orientations1) (zip points2 orientations2)"
  by (simp add: find_minutiae_correspondences_def spec_correspondences_def outer_fold_spec)

subsection \<open>Pairs of cost zero\<close>

lemma spec_distance_nonneg: "0 \<le> spec_distance a b"
  by (simp add: spec_distance_def)

lemma spec_orientation_difference_nonneg: "0 \<le> spec_orientation_difference a b"
  by (simp add: spec_orientation_difference_def)

lemma spec_cost_nonneg: "0 \<le> spec_cost a jb"
  using spec_distance_nonneg[of a "snd jb"] spec_orientation_difference_nonneg[of a "snd jb"]
  by (simp add: spec_cost_def)

lemma spec_distance_zero_iff: "spec_distance a b = 0 \<longleftrightarrow> fst a = fst b"
proof -
  have "spec_distance a b = 0 \<longleftrightarrow> (fst (fst a) - fst (fst b))\<^sup>2 + (snd (fst a) - snd (fst b))\<^sup>2 = 0"
    by (simp add: spec_distance_def)
  also have "\<dots> \<longleftrightarrow> fst (fst a) = fst (fst b) \<and> snd (fst a) = snd (fst b)"
    by (simp add: sum_power2_eq_zero_iff)
  also have "\<dots> \<longleftrightarrow> fst a = fst b"
    by (simp add: prod_eq_iff)
  finally show ?thesis .
qed

lemma spec_normalize_zero_iff: "spec_normalize t = 0 \<longleftrightarrow> (\<exists>k::int. t = 2 * pi * of_int k)"
proof
  assume "spec_normalize t = 0"
  then have "t = 2 * pi * of_int \<lceil>(t - pi) / (2 * pi)\<rceil>"
    by (simp add: spec_normalize_def)
  then show "\<exists>k::int. t = 2 * pi * of_int k" by blast
next
  assume "\<exists>k::int. t = 2 * pi * of_int k"
  then obtain k :: int where k: "t = 2 * pi * of_int k" by blast
  have "(t - pi) / (2 * pi) = of_int k - 1 / 2"
    by (simp add: k field_simps)
  then have "\<lceil>(t - pi) / (2 * pi)\<rceil> = k"
    by (simp add: ceiling_eq_iff) 
  then show "spec_normalize t = 0"
    by (simp add: spec_normalize_def k)
qed

lemma spec_cost_zero_iff:
  "spec_cost a jb = 0 \<longleftrightarrow>
     fst a = fst (snd jb) \<and> (\<exists>k::int. snd a - snd (snd jb) = 2 * pi * of_int k)"
proof -
  have "spec_cost a jb = 0 \<longleftrightarrow>
          spec_distance a (snd jb) = 0 \<and> spec_orientation_difference a (snd jb) = 0"
    using spec_distance_nonneg[of a "snd jb"] spec_orientation_difference_nonneg[of a "snd jb"]
    by (auto simp: spec_cost_def)
  then show ?thesis
    by (simp add: spec_distance_zero_iff spec_orientation_difference_def spec_normalize_zero_iff)
qed

lemma spec_cost_zero_parts:
  "spec_cost a jb = 0 \<Longrightarrow>
     spec_distance a (snd jb) = 0 \<and> spec_orientation_difference a (snd jb) = 0"
  using spec_distance_nonneg[of a "snd jb"] spec_orientation_difference_nonneg[of a "snd jb"]
  by (auto simp: spec_cost_def)

lemma spec_cost_refl: "spec_cost a (j, a) = 0"
proof -
  have "snd a - snd a = 2 * pi * of_int 0" by simp
  then show ?thesis unfolding spec_cost_zero_iff by (metis snd_conv)
qed

lemma spec_cost_trans_iff:
  assumes "spec_cost a (j, b) = 0"
  shows "spec_cost x (j', b) = 0 \<longleftrightarrow> spec_cost x (j'', a) = 0"
proof -
  from assms obtain k :: int where ab: "fst a = fst b" "snd a - snd b = 2 * pi * of_int k"
    unfolding spec_cost_zero_iff by auto
  show ?thesis
  proof
    assume "spec_cost x (j', b) = 0"
    then obtain m :: int where xb: "fst x = fst b" "snd x - snd b = 2 * pi * of_int m"
      unfolding spec_cost_zero_iff by auto
    have "snd x - snd a = 2 * pi * of_int (m - k)"
      using ab(2) xb(2) by (simp add: algebra_simps)
    then show "spec_cost x (j'', a) = 0"
      unfolding spec_cost_zero_iff using ab(1) xb(1) by (metis snd_conv)
  next
    assume "spec_cost x (j'', a) = 0"
    then obtain m :: int where xa: "fst x = fst a" "snd x - snd a = 2 * pi * of_int m"
      unfolding spec_cost_zero_iff by auto
    have "snd x - snd b = 2 * pi * of_int (m + k)"
      using ab(2) xa(2) by (simp add: algebra_simps)
    then show "spec_cost x (j', b) = 0"
      unfolding spec_cost_zero_iff using ab(1) xa(1) by (metis snd_conv)
  qed
qed

lemma spec_survives_zero:
  "spec_cost a jb = 0 \<Longrightarrow> fst jb \<notin> claimed \<Longrightarrow> spec_survives claimed a jb"
  using spec_cost_zero_parts[of a jb]
  by (simp add: spec_survives_def max_distance_threshold_def orientation_tolerance_def)

subsection \<open>Matching a list against itself\<close>

lemma spec_cost_index: "spec_cost a (j, b) = spec_cost a (j', b)"
  by (simp add: spec_cost_def)

lemma card_filter_insert:
  assumes "finite A" "j \<notin> A"
  shows "card {x \<in> insert j A. P x} = (if P j then Suc (card {x \<in> A. P x}) else card {x \<in> A. P x})"
proof (cases "P j")
  case True
  then have "{x \<in> insert j A. P x} = insert j {x \<in> A. P x}" by auto
  then show ?thesis using assms True by simp
next
  case False
  then have "{x \<in> insert j A. P x} = {x \<in> A. P x}" by auto
  then show ?thesis using False by simp
qed

lemma card_filter_less_Suc:
  "card {k. k < Suc i \<and> P k} = (if P i then Suc (card {k. k < i \<and> P k}) else card {k. k < i \<and> P k})"
proof -
  have "{k. k < Suc i \<and> P k} = {k \<in> insert i {..<i}. P k}" by (auto simp: less_Suc_eq)
  moreover have "{k. k < i \<and> P k} = {k \<in> {..<i}. P k}" by auto
  ultimately show ?thesis using card_filter_insert[of "{..<i}" i P] by simp
qed

lemma self_search:
  assumes "i \<le> length Z" "claimed \<subseteq> {..<length Z}"
    and "\<forall>x. card {j \<in> claimed. spec_cost x (0, Z ! j) = 0}
             = card {k. k < i \<and> spec_cost x (0, Z ! k) = 0}"
  shows "length (spec_search (List.enumerate i (drop i Z)) (List.enumerate 0 Z) claimed)
           = length Z - i
       \<and> (\<forall>m \<in> set (spec_search (List.enumerate i (drop i Z)) (List.enumerate 0 Z) claimed).
            fst (snd (snd m)) = 0 \<and> snd (snd (snd m)) = 0)"
  using assms
proof (induction "length Z - i" arbitrary: i claimed)
  case 0
  then show ?case by simp
next
  case (Suc d)
  define n where "n = length Z"
  define a where "a = Z ! i"
  define B where "B = List.enumerate 0 Z"
  have i: "i < n" using Suc.hyps(2) by (simp add: n_def)
  have fin: "finite claimed" using Suc.prems(2) finite_subset by blast
  have A: "List.enumerate i (drop i Z) = (i, a) # List.enumerate (Suc i) (drop (Suc i) Z)"
    using i by (simp add: n_def a_def Cons_nth_drop_Suc[symmetric])
  define C where "C = {k. k < n \<and> spec_cost a (0, Z ! k) = 0}"
  define Cc where "Cc = {j \<in> claimed. spec_cost a (0, Z ! j) = 0}"
  define Ci where "Ci = {k. k < i \<and> spec_cost a (0, Z ! k) = 0}"
  have finC: "finite C" by (simp add: C_def)
  have "i \<in> C" using i spec_cost_refl[of a 0] by (simp add: C_def a_def)
  moreover have "i \<notin> Ci" by (simp add: Ci_def)
  moreover have "Ci \<subseteq> C" using i by (auto simp: Ci_def C_def)
  ultimately have "Ci \<subset> C" by blast
  then have "card Ci < card C" using finC by (rule psubset_card_mono[rotated])
  moreover have "card Cc = card Ci" unfolding Cc_def Ci_def using Suc.prems(3) by blast
  moreover have "Cc \<subseteq> C" using Suc.prems(2) by (auto simp: Cc_def C_def n_def)
  ultimately have "Cc \<noteq> C" by auto
  with \<open>Cc \<subseteq> C\<close> obtain j where j: "j \<in> C" "j \<notin> Cc" by blast
  then have j_lt: "j < n" and j_cost: "spec_cost a (j, Z ! j) = 0" and j_new: "j \<notin> claimed"
    using spec_cost_index[of a j "Z ! j" 0] by (auto simp: C_def Cc_def)
  define survivors where "survivors = filter (spec_survives claimed a) B"
  have "(j, Z ! j) \<in> set B"
    using j_lt by (simp add: B_def in_set_enumerate_eq n_def)
  moreover have "spec_survives claimed a (j, Z ! j)"
    using j_cost j_new by (simp add: spec_survives_zero)
  ultimately have j_in: "(j, Z ! j) \<in> set survivors" by (simp add: survivors_def)
  then have ne: "survivors \<noteq> []" by auto
  define jb where "jb = arg_min_list (spec_cost a) survivors"
  have "spec_cost a jb \<le> spec_cost a (j, Z ! j)"
    unfolding jb_def using j_in by (rule arg_min_list_le)
  then have jb_cost: "spec_cost a jb = 0"
    using j_cost spec_cost_nonneg[of a jb] by linarith
  have "jb \<in> set survivors" unfolding jb_def using ne by (rule arg_min_list_in)
  then have jb_B: "jb \<in> set B" and jb_sv: "spec_survives claimed a jb"
    by (simp_all add: survivors_def)
  have jb_lt: "fst jb < n" and jb_snd: "snd jb = Z ! fst jb"
    using jb_B by (simp_all add: B_def in_set_enumerate_eq n_def)
  have jb_new: "fst jb \<notin> claimed" using jb_sv by (simp add: spec_survives_def)
  define claimed' where "claimed' = insert (fst jb) claimed"
  define rest where "rest = spec_search (List.enumerate (Suc i) (drop (Suc i) Z)) B claimed'"
  have unfold: "spec_search (List.enumerate i (drop i Z)) B claimed
      = (i, fst jb, spec_distance a (snd jb), spec_orientation_difference a (snd jb)) # rest"
    using ne
    by (simp add: A Let_def survivors_def[symmetric] jb_def[symmetric] claimed'_def rest_def
        del: arg_min_list.simps)
  have zero: "spec_distance a (snd jb) = 0" "spec_orientation_difference a (snd jb) = 0"
    using spec_cost_zero_parts[OF jb_cost] by simp_all
  have p1: "Suc i \<le> length Z" using i by (simp add: n_def)
  have p2: "claimed' \<subseteq> {..<length Z}"
    using Suc.prems(2) jb_lt by (simp add: claimed'_def n_def)
  have p3: "\<forall>x. card {j \<in> claimed'. spec_cost x (0, Z ! j) = 0}
                 = card {k. k < Suc i \<and> spec_cost x (0, Z ! k) = 0}"
  proof
    fix x
    have "spec_cost a (fst jb, Z ! fst jb) = 0"
      using jb_cost jb_snd by (metis prod.collapse)
    then have eqv: "spec_cost x (0, Z ! fst jb) = 0 \<longleftrightarrow> spec_cost x (0, Z ! i) = 0"
      unfolding a_def by (rule spec_cost_trans_iff)
    have L: "card {j \<in> insert (fst jb) claimed. spec_cost x (0, Z ! j) = 0}
        = (if spec_cost x (0, Z ! fst jb) = 0
           then Suc (card {j \<in> claimed. spec_cost x (0, Z ! j) = 0})
           else card {j \<in> claimed. spec_cost x (0, Z ! j) = 0})"
      using fin jb_new by (rule card_filter_insert)
    have R: "card {k. k < Suc i \<and> spec_cost x (0, Z ! k) = 0}
        = (if spec_cost x (0, Z ! i) = 0
           then Suc (card {k. k < i \<and> spec_cost x (0, Z ! k) = 0})
           else card {k. k < i \<and> spec_cost x (0, Z ! k) = 0})"
      by (rule card_filter_less_Suc)
    show "card {j \<in> claimed'. spec_cost x (0, Z ! j) = 0}
            = card {k. k < Suc i \<and> spec_cost x (0, Z ! k) = 0}"
      unfolding claimed'_def L R
      using Suc.prems(3)[rule_format, of x] eqv by simp
  qed
  have d: "d = length Z - Suc i" using Suc.hyps(2) by simp
  have IH: "length rest = length Z - Suc i
            \<and> (\<forall>m \<in> set rest. fst (snd (snd m)) = 0 \<and> snd (snd (snd m)) = 0)"
    unfolding rest_def B_def using Suc.hyps(1)[OF d p1 p2 p3] .
  show ?case
    unfolding B_def[symmetric] unfold using IH i zero by (simp add: n_def)
qed

lemma self_correspondences:
  "length (spec_correspondences Z Z) = length Z
   \<and> (\<forall>m \<in> set (spec_correspondences Z Z). fst (snd (snd m)) = 0 \<and> snd (snd (snd m)) = 0)"
  using self_search[of 0 Z "{}"] by (simp add: spec_correspondences_def)

subsection \<open>What the search returns\<close>

lemma spec_search_step:
  "spec_search (ia # A) B claimed = spec_search A B claimed
   \<or> (\<exists>jb. jb \<in> set B \<and> spec_survives claimed (snd ia) jb
          \<and> spec_search (ia # A) B claimed
              = (fst ia, fst jb, spec_distance (snd ia) (snd jb),
                 spec_orientation_difference (snd ia) (snd jb))
                # spec_search A B (insert (fst jb) claimed))"
proof (cases "filter (spec_survives claimed (snd ia)) B = []")
  case True
  then show ?thesis by simp
next
  case False
  define jb where "jb = arg_min_list (spec_cost (snd ia)) (filter (spec_survives claimed (snd ia)) B)"
  have "jb \<in> set (filter (spec_survives claimed (snd ia)) B)"
    unfolding jb_def using False by (rule arg_min_list_in)
  then have "jb \<in> set B" "spec_survives claimed (snd ia) jb" by simp_all
  moreover have "spec_search (ia # A) B claimed
              = (fst ia, fst jb, spec_distance (snd ia) (snd jb),
                 spec_orientation_difference (snd ia) (snd jb))
                # spec_search A B (insert (fst jb) claimed)"
    using False by (simp add: Let_def jb_def del: arg_min_list.simps)
  ultimately show ?thesis by blast
qed

lemma spec_search_length_le: "length (spec_search A B claimed) \<le> length A"
proof (induction A arbitrary: claimed)
  case Nil
  then show ?case by simp
next
  case (Cons ia A)
  from spec_search_step[of ia A B claimed] show ?case
  proof
    assume "spec_search (ia # A) B claimed = spec_search A B claimed"
    then show ?thesis using Cons.IH[of claimed] by simp
  next
    assume "\<exists>jb. jb \<in> set B \<and> spec_survives claimed (snd ia) jb
          \<and> spec_search (ia # A) B claimed
              = (fst ia, fst jb, spec_distance (snd ia) (snd jb),
                 spec_orientation_difference (snd ia) (snd jb))
                # spec_search A B (insert (fst jb) claimed)"
    then obtain jb where "spec_search (ia # A) B claimed
              = (fst ia, fst jb, spec_distance (snd ia) (snd jb),
                 spec_orientation_difference (snd ia) (snd jb))
                # spec_search A B (insert (fst jb) claimed)" by blast
    then show ?thesis using Cons.IH[of "insert (fst jb) claimed"] by simp
  qed
qed

lemma spec_search_sources:
  "fst ` set (spec_search A B claimed) \<subseteq> fst ` set A"
proof (induction A arbitrary: claimed)
  case Nil
  then show ?case by simp
next
  case (Cons ia A)
  from spec_search_step[of ia A B claimed] show ?case
  proof (elim disjE exE conjE)
    assume "spec_search (ia # A) B claimed = spec_search A B claimed"
    then show ?thesis using Cons.IH[of claimed] by auto
  next
    fix jb
    assume "spec_search (ia # A) B claimed
              = (fst ia, fst jb, spec_distance (snd ia) (snd jb),
                 spec_orientation_difference (snd ia) (snd jb))
                # spec_search A B (insert (fst jb) claimed)"
    then show ?thesis using Cons.IH[of "insert (fst jb) claimed"] by auto
  qed
qed

lemma spec_search_sources_distinct:
  "distinct (map fst A) \<Longrightarrow> distinct (map fst (spec_search A B claimed))"
proof (induction A arbitrary: claimed)
  case Nil
  then show ?case by simp
next
  case (Cons ia A)
  then have d: "distinct (map fst A)" and new: "fst ia \<notin> fst ` set A" by simp_all
  from spec_search_step[of ia A B claimed] show ?case
  proof (elim disjE exE conjE)
    assume "spec_search (ia # A) B claimed = spec_search A B claimed"
    then show ?thesis using Cons.IH[OF d, of claimed] by simp
  next
    fix jb
    assume "spec_search (ia # A) B claimed
              = (fst ia, fst jb, spec_distance (snd ia) (snd jb),
                 spec_orientation_difference (snd ia) (snd jb))
                # spec_search A B (insert (fst jb) claimed)"
    then show ?thesis
      using Cons.IH[OF d, of "insert (fst jb) claimed"] new
        spec_search_sources[of A B "insert (fst jb) claimed"]
      by auto
  qed
qed

lemma spec_search_targets:
  "(\<forall>m \<in> set (spec_search A B claimed). fst (snd m) \<in> fst ` set B \<and> fst (snd m) \<notin> claimed)
   \<and> distinct (map (\<lambda>m. fst (snd m)) (spec_search A B claimed))"
proof (induction A arbitrary: claimed)
  case Nil
  then show ?case by simp
next
  case (Cons ia A)
  from spec_search_step[of ia A B claimed] show ?case
  proof (elim disjE exE conjE)
    assume "spec_search (ia # A) B claimed = spec_search A B claimed"
    then show ?thesis using Cons.IH[of claimed] by simp
  next
    fix jb
    assume jb: "jb \<in> set B" "spec_survives claimed (snd ia) jb"
      and eq: "spec_search (ia # A) B claimed
              = (fst ia, fst jb, spec_distance (snd ia) (snd jb),
                 spec_orientation_difference (snd ia) (snd jb))
                # spec_search A B (insert (fst jb) claimed)"
    have new: "fst jb \<notin> claimed" using jb(2) by (simp add: spec_survives_def)
    show ?thesis
      unfolding eq using Cons.IH[of "insert (fst jb) claimed"] jb(1) new
      by (auto simp: image_iff)
  qed
qed

lemma spec_search_gated:
  "\<forall>m \<in> set (spec_search A B claimed).
     \<exists>ia \<in> set A. \<exists>jb \<in> set B.
       m = (fst ia, fst jb, spec_distance (snd ia) (snd jb),
            spec_orientation_difference (snd ia) (snd jb))
       \<and> spec_distance (snd ia) (snd jb) \<le> max_distance_threshold
       \<and> spec_orientation_difference (snd ia) (snd jb) \<le> orientation_tolerance"
proof (induction A arbitrary: claimed)
  case Nil
  then show ?case by simp
next
  case (Cons ia A)
  from spec_search_step[of ia A B claimed] show ?case
  proof (elim disjE exE conjE)
    assume "spec_search (ia # A) B claimed = spec_search A B claimed"
    then show ?thesis using Cons.IH[of claimed] by auto
  next
    fix jb
    assume jb: "jb \<in> set B" "spec_survives claimed (snd ia) jb"
      and eq: "spec_search (ia # A) B claimed
              = (fst ia, fst jb, spec_distance (snd ia) (snd jb),
                 spec_orientation_difference (snd ia) (snd jb))
                # spec_search A B (insert (fst jb) claimed)"
    have ok: "spec_distance (snd ia) (snd jb) \<le> max_distance_threshold"
      "spec_orientation_difference (snd ia) (snd jb) \<le> orientation_tolerance"
      using jb(2) by (simp_all add: spec_survives_def)
    show ?thesis
      unfolding eq using Cons.IH[of "insert (fst jb) claimed"] jb(1) ok
      by (auto simp del: spec_search.simps)
  qed
qed

lemma fold_add_const:
  "(\<And>m. m \<in> set ms \<Longrightarrow> f m = (1::real)) \<Longrightarrow>
     fold (\<lambda>m acc. acc + f m) ms acc = acc + real (length ms)"
  by (induction ms arbitrary: acc) auto

lemma confidence_of_matches_perfect:
  assumes "0 < n" "length ms = n"
    and "\<forall>m \<in> set ms. fst (snd (snd m)) = 0 \<and> snd (snd (snd m)) = 0"
  shows "confidence_of_matches n n ms = 1"
proof -
  have ds: "\<And>m. m \<in> set ms \<Longrightarrow> distance_score m = 1"
    using assms(3) by (auto simp: distance_score_def split: prod.splits)
  have os: "\<And>m. m \<in> set ms \<Longrightarrow> orientation_score m = 1"
    using assms(3) by (auto simp: orientation_score_def split: prod.splits)
  have d: "fold (\<lambda>m acc. acc + distance_score m) ms 0 = real n"
    using fold_add_const[of ms distance_score 0] ds assms(2) by simp
  have o: "fold (\<lambda>m acc. acc + orientation_score m) ms 0 = real n"
    using fold_add_const[of ms orientation_score 0] os assms(2) by simp
  show ?thesis
    using assms(1,2) by (simp add: confidence_of_matches_def Let_def d o)
qed

subsection \<open>Evaluation at concrete inputs\<close>

lemma normalize_angle_zero: "normalize_angle 0 = 0"
  by (simp add: normalize_angle_def normalize_down.simps[of 0] normalize_up.simps[of 0])

lemmas search_eval = find_minutiae_correspondences_def outer_body_def inner_body_def enumerate_eq_zip
      normalize_angle_zero linalg_norm_def point_sub_def
      below_best_def max_distance_threshold_def orientation_tolerance_def


subsection \<open>The claims about the matcher\<close>

lemma calculate_match_confidence_empty:
  "calculate_match_confidence (PList []) b = 0" "calculate_match_confidence a (PList []) = 0"
  by (simp_all add: calculate_match_confidence_def)

text \<open>
  C3. For every pair of minutiae values the computed match confidence lies between 0
  and 1, and it is 0 whenever one of the two lists is empty: the function then returns
  before any array is built or any correspondence searched.
\<close>

theorem match_confidence_bounded:
  "0 \<le> calculate_match_confidence minutiae1 minutiae2
   \<and> calculate_match_confidence minutiae1 minutiae2 \<le> 1
   \<and> (minutiae1 = PList [] \<or> minutiae2 = PList [] \<longrightarrow>
        calculate_match_confidence minutiae1 minutiae2 = 0)"
  using calculate_match_confidence_bounds[of minutiae1 minutiae2]
    calculate_match_confidence_empty by auto

theorem match_confidence_bounded_witness:
  "0 \<le> calculate_match_confidence (PList [])
          (PList [minutia_dict \<lparr>m_x = 10, m_y = 10, m_orientation = S ''0.0'', m_type = S ''bifurcation''\<rparr>])
   \<and> calculate_match_confidence (PList [])
          (PList [minutia_dict \<lparr>m_x = 10, m_y = 10, m_orientation = S ''0.0'', m_type = S ''bifurcation''\<rparr>]) \<le> 1
   \<and> calculate_match_confidence (PList [])
          (PList [minutia_dict \<lparr>m_x = 10, m_y = 10, m_orientation = S ''0.0'', m_type = S ''bifurcation''\<rparr>]) = 0"
  using match_confidence_bounded[of "PList []"
      "PList [minutia_dict \<lparr>m_x = 10, m_y = 10, m_orientation = S ''0.0'', m_type = S ''bifurcation''\<rparr>]"]
  by simp

lemma enumerate_member: "ia \<in> set (List.enumerate 0 xs) \<Longrightarrow> fst ia < length xs \<and> snd ia = xs ! fst ia"
  by (simp add: in_set_enumerate_eq)

text \<open>
  C5. In the list the search returns, every index of the first set and every index of the
  second set occurs in at most one correspondence, the indices are in range, and so the
  number of correspondences is at most the size of the smaller set.
\<close>

theorem correspondences_one_to_one:
  "let ms = find_minutiae_correspondences points1 points2 orientations1 orientations2 in
     distinct (map fst ms)
     \<and> distinct (map (\<lambda>m. fst (snd m)) ms)
     \<and> (\<forall>m \<in> set ms. fst m < length points1 \<and> fst (snd m) < length points2)
     \<and> length ms \<le> min (length points1) (length points2)"
proof -
  define A where "A = List.enumerate 0 (zip points1 orientations1)"
  define B where "B = List.enumerate 0 (zip points2 orientations2)"
  define ms where "ms = find_minutiae_correspondences points1 points2 orientations1 orientations2"
  have ms: "ms = spec_search A B {}"
    by (simp add: ms_def A_def B_def find_minutiae_correspondences_spec spec_correspondences_def)
  have dA: "distinct (map fst A)" by (simp add: A_def)
  have d1: "distinct (map fst ms)"
    unfolding ms using dA by (rule spec_search_sources_distinct)
  have d2: "distinct (map (\<lambda>m. fst (snd m)) ms)"
    unfolding ms using spec_search_targets[of A B "{}"] by simp
  have r1: "fst ` set ms \<subseteq> {..<length points1}"
  proof -
    have "fst ` set ms \<subseteq> fst ` set A" unfolding ms by (rule spec_search_sources)
    also have "\<dots> \<subseteq> {..<length points1}"
      by (auto simp: A_def dest!: enumerate_member)
    finally show ?thesis .
  qed
  have r2: "(\<lambda>m. fst (snd m)) ` set ms \<subseteq> {..<length points2}"
  proof -
    have "(\<lambda>m. fst (snd m)) ` set ms \<subseteq> fst ` set B"
      unfolding ms using spec_search_targets[of A B "{}"] by auto
    also have "\<dots> \<subseteq> {..<length points2}"
      by (auto simp: B_def dest!: enumerate_member)
    finally show ?thesis .
  qed
  have l1: "length ms \<le> length points1"
  proof -
    have "length ms = card (fst ` set ms)"
      using d1 distinct_card[of "map fst ms"] by simp
    also have "\<dots> \<le> card {..<length points1}"
      using r1 by (intro card_mono) simp_all
    finally show ?thesis by simp
  qed
  have l2: "length ms \<le> length points2"
  proof -
    have "length ms = card ((\<lambda>m. fst (snd m)) ` set ms)"
      using d2 distinct_card[of "map (\<lambda>m. fst (snd m)) ms"] by simp
    also have "\<dots> \<le> card {..<length points2}"
      using r2 by (intro card_mono) simp_all
    finally show ?thesis by simp
  qed
  have "distinct (map fst ms)
     \<and> distinct (map (\<lambda>m. fst (snd m)) ms)
     \<and> (\<forall>m \<in> set ms. fst m < length points1 \<and> fst (snd m) < length points2)
     \<and> length ms \<le> min (length points1) (length points2)"
    using d1 d2 r1 r2 l1 l2 by auto
  then show ?thesis by (simp add: ms_def Let_def)
qed

theorem correspondences_one_to_one_witness:
  "find_minutiae_correspondences [(0,0),(1,0)] [(1,0),(0,0)] [0,0] [0,0]
     = [(0, 1, 0, 0), (1, 0, 0, 0)]
   \<and> distinct (map fst (find_minutiae_correspondences [(0,0),(1,0)] [(1,0),(0,0)] [0,0] [0,0]))
   \<and> distinct (map (\<lambda>m. fst (snd m))
                  (find_minutiae_correspondences [(0,0),(1,0)] [(1,0),(0,0)] [0,0] [0,0]))
   \<and> length (find_minutiae_correspondences [(0,0),(1,0)] [(1,0),(0,0)] [0,0] [0,0])
        \<le> min (length [(0::real,0::real),(1,0)]) (length [(1::real,0::real),(0,0)])"
proof -
  have e: "find_minutiae_correspondences [(0,0),(1,0)] [(1,0),(0,0)] [0,0] [0,0]
           = [(0, 1, 0, 0), (1, 0, 0, 0)]"
    by (simp add: search_eval)
  show ?thesis
    using correspondences_one_to_one[of "[(0,0),(1,0)]" "[(1,0),(0,0)]" "[0,0]" "[0,0]"] e
    unfolding Let_def by blast
qed

lemma find_minutiae_correspondences_gated:
  assumes "m \<in> set (find_minutiae_correspondences points1 points2 orientations1 orientations2)"
  shows "\<exists>i j. i < length points1 \<and> i < length orientations1
               \<and> j < length points2 \<and> j < length orientations2
               \<and> m = (i, j, linalg_norm (point_sub (points1 ! i) (points2 ! j)),
                       \<bar>normalize_angle (orientations1 ! i - orientations2 ! j)\<bar>)
               \<and> linalg_norm (point_sub (points1 ! i) (points2 ! j)) \<le> max_distance_threshold
               \<and> \<bar>normalize_angle (orientations1 ! i - orientations2 ! j)\<bar> \<le> orientation_tolerance"
proof -
  define A where "A = List.enumerate 0 (zip points1 orientations1)"
  define B where "B = List.enumerate 0 (zip points2 orientations2)"
  have "m \<in> set (spec_search A B {})"
    using assms
    by (simp add: A_def B_def find_minutiae_correspondences_spec spec_correspondences_def)
  then obtain ia jb where ia: "ia \<in> set A" and jb: "jb \<in> set B"
    and m: "m = (fst ia, fst jb, spec_distance (snd ia) (snd jb),
                 spec_orientation_difference (snd ia) (snd jb))"
    and ok: "spec_distance (snd ia) (snd jb) \<le> max_distance_threshold"
            "spec_orientation_difference (snd ia) (snd jb) \<le> orientation_tolerance"
    using spec_search_gated[of A B "{}"] by blast
  define i where "i = fst ia"
  define j where "j = fst jb"
  have i: "i < length points1" "i < length orientations1"
    and sa: "snd ia = (points1 ! i, orientations1 ! i)"
    using enumerate_member[of ia "zip points1 orientations1"] ia
    by (simp_all add: A_def i_def)
  have j: "j < length points2" "j < length orientations2"
    and sb: "snd jb = (points2 ! j, orientations2 ! j)"
    using enumerate_member[of jb "zip points2 orientations2"] jb
    by (simp_all add: B_def j_def)
  have d: "spec_distance (snd ia) (snd jb) = linalg_norm (point_sub (points1 ! i) (points2 ! j))"
    unfolding sa sb by (rule linalg_norm_spec[symmetric])
  have od: "spec_orientation_difference (snd ia) (snd jb)
            = \<bar>normalize_angle (orientations1 ! i - orientations2 ! j)\<bar>"
    unfolding sa sb by (rule orientation_diff_spec[symmetric])
  show ?thesis
    using i j m ok unfolding d od i_def[symmetric] j_def[symmetric] by blast
qed

lemma scenario_far_confidence:
  "calculate_match_confidence
      (PList [minutia_dict \<lparr>m_x = 0, m_y = 0, m_orientation = S ''0.0'', m_type = S ''bifurcation''\<rparr>])
      (PList [minutia_dict \<lparr>m_x = 100, m_y = 100, m_orientation = S ''0.0'', m_type = S ''bifurcation''\<rparr>])
   = 0"
proof -
  have h: "50 < sqrt 20000" by (rule real_less_rsqrt) simp
  have e: "find_minutiae_correspondences [(0,0)] [(100,100)] [0] [0] = []"
    by (simp add: search_eval h)
  have f: "float_val (S ''0.0'') = Some 0"
    by (simp add: float_val_def digits_val_def exp_val_def match_number_def match_integer_def
        match_natural_def match_frac_def match_exp_def match_digits1_def is_digit_def)
  show ?thesis
    by (simp add: calculate_match_confidence_def minutia_point_def minutia_orientation_def
        minutia_dict_def f[simplified] e confidence_of_matches_def)
qed

text \<open>
  C4. The search is the greedy algorithm of the specification: it returns what
  \<open>spec_correspondences\<close> returns. Every pairing it forms has a Euclidean distance of at
  most the distance threshold and a normalised absolute orientation difference of at most
  the tolerance. For A = [{0,0,0.0}] and B = [{100,100,0.0}] no correspondence is formed
  and the confidence is 0.
\<close>

theorem correspondence_search_greedy:
  "find_minutiae_correspondences points1 points2 orientations1 orientations2
     = spec_correspondences (zip points1 orientations1) (zip points2 orientations2)
   \<and> (\<forall>m \<in> set (find_minutiae_correspondences points1 points2 orientations1 orientations2).
        \<exists>i j. i < length points1 \<and> i < length orientations1
               \<and> j < length points2 \<and> j < length orientations2
               \<and> m = (i, j, linalg_norm (point_sub (points1 ! i) (points2 ! j)),
                       \<bar>normalize_angle (orientations1 ! i - orientations2 ! j)\<bar>)
               \<and> linalg_norm (point_sub (points1 ! i) (points2 ! j)) \<le> max_distance_threshold
               \<and> \<bar>normalize_angle (orientations1 ! i - orientations2 ! j)\<bar> \<le> orientation_tolerance)
   \<and> find_minutiae_correspondences [(0, 0)] [(100, 100)] [0] [0] = []
   \<and> calculate_match_confidence
        (PList [minutia_dict \<lparr>m_x = 0, m_y = 0, m_orientation = S ''0.0'', m_type = S ''bifurcation''\<rparr>])
        (PList [minutia_dict \<lparr>m_x = 100, m_y = 100, m_orientation = S ''0.0'', m_type = S ''bifurcation''\<rparr>])
      = 0"
proof -
  have h: "50 < sqrt 20000" by (rule real_less_rsqrt) simp
  have e: "find_minutiae_correspondences [(0,0)] [(100,100)] [0] [0] = []"
    by (simp add: search_eval h)
  show ?thesis
    using find_minutiae_correspondences_spec[of points1 points2 orientations1 orientations2]
      find_minutiae_correspondences_gated[of _ points1 points2 orientations1 orientations2]
      e scenario_far_confidence
    by blast
qed

theorem correspondence_search_greedy_witness:
  "find_minutiae_correspondences [(0,0),(1,0)] [(1,0),(0,0)] [0,0] [0,0]
     = [(0, 1, 0, 0), (1, 0, 0, 0)]
   \<and> spec_correspondences (zip [(0,0),(1,0)] [0,0]) (zip [(1,0),(0,0)] [0,0])
     = [(0, 1, 0, 0), (1, 0, 0, 0)]
   \<and> (\<exists>i j. i < length [(0::real,0::real),(1,0)] \<and> i < length [0::real,0]
               \<and> j < length [(1::real,0::real),(0,0)] \<and> j < length [0::real,0]
               \<and> (0, 1, 0, 0)
                   = (i, j, linalg_norm (point_sub ([(0,0),(1,0)] ! i) ([(1,0),(0,0)] ! j)),
                      \<bar>normalize_angle ([0,0] ! i - [0,0] ! j)\<bar>)
               \<and> linalg_norm (point_sub ([(0,0),(1,0)] ! i) ([(1,0),(0,0)] ! j)) \<le> max_distance_threshold
               \<and> \<bar>normalize_angle ([0,0] ! i - [0,0] ! j)\<bar> \<le> orientation_tolerance)"
proof -
  have e: "find_minutiae_correspondences [(0,0),(1,0)] [(1,0),(0,0)] [0,0] [0,0]
           = [(0, 1, 0, 0), (1, 0, 0, 0)]"
    by (simp add: search_eval)
  note t = correspondence_search_greedy[of "[(0,0),(1,0)]" "[(1,0),(0,0)]" "[0,0]" "[0,0]"]
  from t have c1: "find_minutiae_correspondences [(0,0),(1,0)] [(1,0),(0,0)] [0,0] [0,0]
     = spec_correspondences (zip [(0,0),(1,0)] [0,0]) (zip [(1,0),(0,0)] [0,0])"
    by (rule conjunct1)
  have s: "spec_correspondences (zip [(0,0),(1,0)] [0,0]) (zip [(1,0),(0,0)] [0,0])
     = [(0, 1, 0, 0), (1, 0, 0, 0)]"
    unfolding c1[symmetric] by (rule e)
  have m: "(0, 1, 0, 0) \<in> set (find_minutiae_correspondences [(0,0),(1,0)] [(1,0),(0,0)] [0,0] [0,0])"
    unfolding e by simp
  from t have c2: "\<forall>m \<in> set (find_minutiae_correspondences [(0,0),(1,0)] [(1,0),(0,0)] [0,0] [0,0]).
        \<exists>i j. i < length [(0::real,0::real),(1,0)] \<and> i < length [0::real,0]
               \<and> j < length [(1::real,0::real),(0,0)] \<and> j < length [0::real,0]
               \<and> m = (i, j, linalg_norm (point_sub ([(0,0),(1,0)] ! i) ([(1,0),(0,0)] ! j)),
                       \<bar>normalize_angle ([0,0] ! i - [0,0] ! j)\<bar>)
               \<and> linalg_norm (point_sub ([(0,0),(1,0)] ! i) ([(1,0),(0,0)] ! j)) \<le> max_distance_threshold
               \<and> \<bar>normalize_angle ([0,0] ! i - [0,0] ! j)\<bar> \<le> orientation_tolerance"
    by (rule conjunct2[THEN conjunct1])
  show ?thesis by (intro conjI e s bspec[OF c2 m])
qed

lemma traverse_length: "traverse f xs = Inr ys \<Longrightarrow> length ys = length xs"
  by (induction xs arbitrary: ys) (auto split: sum.splits)

lemma traverse_minutiae_self:
  assumes "ms \<noteq> []"
    and "traverse minutia_point ms = Inr points"
    and "traverse minutia_orientation ms = Inr orientations"
  shows "length (find_minutiae_correspondences points points orientations orientations) = length ms"
    and "calculate_match_confidence (PList ms) (PList ms) = 1"
proof -
  have lp: "length points = length ms" using assms(2) by (rule traverse_length)
  have lo: "length orientations = length ms" using assms(3) by (rule traverse_length)
  define cs where "cs = find_minutiae_correspondences points points orientations orientations"
  have cs: "cs = spec_correspondences (zip points orientations) (zip points orientations)"
    by (simp add: cs_def find_minutiae_correspondences_spec)
  have len: "length cs = length ms"
    unfolding cs using self_correspondences[of "zip points orientations"] lp lo by simp
  have zero: "\<forall>m \<in> set cs. fst (snd (snd m)) = 0 \<and> snd (snd (snd m)) = 0"
    unfolding cs using self_correspondences[of "zip points orientations"] by simp
  have pos: "0 < length ms" using assms(1) by simp
  show "length (find_minutiae_correspondences points points orientations orientations) = length ms"
    using len by (simp add: cs_def)
  have "confidence_of_matches (length ms) (length ms) cs = 1"
    using pos len zero by (rule confidence_of_matches_perfect)
  then show "calculate_match_confidence (PList ms) (PList ms) = 1"
    using assms by (simp add: calculate_match_confidence_def cs_def)
qed

text \<open>
  C2. For every non-empty list of minutiae from which the point and orientation arrays can
  be built, matching the list against itself gives as many correspondences as the list has
  entries and a confidence of exactly 1. The instance that follows is the scenario
  A = B = [{x: 10, y: 10, orientation: 0.0}], whose confidence 1 reaches the match
  threshold.
\<close>

theorem self_match_confidence:
  assumes "ms \<noteq> []"
    and "traverse minutia_point ms = Inr points"
    and "traverse minutia_orientation ms = Inr orientations"
  shows "length (find_minutiae_correspondences points points orientations orientations) = length ms
         \<and> calculate_match_confidence (PList ms) (PList ms) = 1"
  using traverse_minutiae_self[OF assms] by simp

theorem self_match_confidence_witness:
  "traverse minutia_point
     [minutia_dict \<lparr>m_x = 10, m_y = 10, m_orientation = S ''0.0'', m_type = S ''bifurcation''\<rparr>]
     = Inr [(10, 10)]
   \<and> traverse minutia_orientation
     [minutia_dict \<lparr>m_x = 10, m_y = 10, m_orientation = S ''0.0'', m_type = S ''bifurcation''\<rparr>]
     = Inr [0]
   \<and> length (find_minutiae_correspondences [(10, 10)] [(10, 10)] [0] [0]) = 1
   \<and> calculate_match_confidence
        (PList [minutia_dict \<lparr>m_x = 10, m_y = 10, m_orientation = S ''0.0'', m_type = S ''bifurcation''\<rparr>])
        (PList [minutia_dict \<lparr>m_x = 10, m_y = 10, m_orientation = S ''0.0'', m_type = S ''bifurcation''\<rparr>])
      = 1
   \<and> match_threshold \<le> calculate_match_confidence
        (PList [minutia_dict \<lparr>m_x = 10, m_y = 10, m_orientation = S ''0.0'', m_type = S ''bifurcation''\<rparr>])
        (PList [minutia_dict \<lparr>m_x = 10, m_y = 10, m_orientation = S ''0.0'', m_type = S ''bifurcation''\<rparr>])"
proof -
  define d where "d = minutia_dict \<lparr>m_x = 10, m_y = 10, m_orientation = S ''0.0'', m_type = S ''bifurcation''\<rparr>"
  have f: "float_val (S ''0.0'') = Some 0"
    by (simp add: float_val_def digits_val_def exp_val_def match_number_def match_integer_def
        match_natural_def match_frac_def match_exp_def match_digits1_def is_digit_def)
  have p: "traverse minutia_point [d] = Inr [(10, 10)]"
    by (simp add: d_def minutia_point_def minutia_dict_def)
  have o: "traverse minutia_orientation [d] = Inr [0]"
    by (simp add: d_def minutia_orientation_def minutia_dict_def f[simplified])
  have ne: "[d] \<noteq> []" by simp
  show ?thesis
    unfolding d_def[symmetric]
    using self_match_confidence[OF ne p o] p o by (simp add: match_threshold_def)
qed

section \<open>Properties of the best-match search\<close>

subsection \<open>The loop keeps the first best candidate\<close>

lemma match_loop_traverse:
  "traverse (candidate_confidence input_minutiae) templates = Inr evals \<Longrightarrow>
   match_loop input_minutiae templates st
     = Inr (fold (\<lambda>e st. case e of None \<Rightarrow> st | Some sc \<Rightarrow> update_best sc st) evals st)"
proof (induction templates arbitrary: evals st)
  case Nil
  then show ?case by simp
next
  case (Cons t ts)
  then show ?case
    by (auto split: sum.splits option.splits)
qed

lemma spec_best_skip:
  "spec_best_match P res \<Longrightarrow> spec_best_match (P @ [None]) res"
  unfolding spec_best_match_def
  by (cases res) (auto simp: nth_append less_Suc_eq)

lemma spec_best_keep_none:
  "spec_best_match P None \<Longrightarrow> c < match_threshold \<Longrightarrow> spec_best_match (P @ [Some (s, c)]) None"
  unfolding spec_best_match_def
  by (auto simp: nth_append less_Suc_eq)

lemma spec_best_keep_some:
  assumes "spec_best_match P (Some r)" "c \<le> mr_confidence r"
  shows "spec_best_match (P @ [Some (s, c)]) (Some r)"
proof -
  from assms(1) obtain k where k: "k < length P" "P ! k = Some (mr_studentId r, mr_confidence r)"
    "match_threshold \<le> mr_confidence r"
    "\<forall>k' < length P. \<forall>s c. P ! k' = Some (s, c) \<longrightarrow>
        c \<le> mr_confidence r \<and> (k' < k \<longrightarrow> c < mr_confidence r)"
    unfolding spec_best_match_def by auto
  have "k < length (P @ [Some (s, c)])" using k(1) by simp
  moreover have "(P @ [Some (s, c)]) ! k = Some (mr_studentId r, mr_confidence r)"
    using k(1,2) by (simp add: nth_append)
  moreover have "\<forall>k' < length (P @ [Some (s, c)]). \<forall>s' c'.
      (P @ [Some (s, c)]) ! k' = Some (s', c') \<longrightarrow>
        c' \<le> mr_confidence r \<and> (k' < k \<longrightarrow> c' < mr_confidence r)"
    using k(1,4) assms(2) by (auto simp: nth_append less_Suc_eq)
  ultimately show ?thesis
    unfolding spec_best_match_def using k(3) by auto
qed

lemma spec_best_new:
  assumes "spec_best_match P res" "match_threshold \<le> c"
    and "case res of None \<Rightarrow> True | Some r \<Rightarrow> mr_confidence r < c"
  shows "spec_best_match (P @ [Some (s, c)]) (Some \<lparr>mr_studentId = s, mr_confidence = c\<rparr>)"
proof -
  have before: "\<forall>k' < length P. \<forall>s' c'. P ! k' = Some (s', c') \<longrightarrow> c' < c"
  proof (cases res)
    case None
    then show ?thesis using assms(1,2) unfolding spec_best_match_def by fastforce
  next
    case (Some r)
    then show ?thesis using assms(1,3) unfolding spec_best_match_def by fastforce
  qed
  have "length P < length (P @ [Some (s, c)])" by simp
  moreover have "(P @ [Some (s, c)]) ! length P = Some (s, c)" by simp
  moreover have "\<forall>k' < length (P @ [Some (s, c)]). \<forall>s' c'.
      (P @ [Some (s, c)]) ! k' = Some (s', c') \<longrightarrow> c' \<le> c \<and> (k' < length P \<longrightarrow> c' < c)"
    using before by (auto simp: nth_append less_Suc_eq)
  ultimately have "\<exists>k < length (P @ [Some (s, c)]).
      (P @ [Some (s, c)]) ! k = Some (s, c) \<and> match_threshold \<le> c
      \<and> (\<forall>k' < length (P @ [Some (s, c)]). \<forall>s' c'.
            (P @ [Some (s, c)]) ! k' = Some (s', c') \<longrightarrow> c' \<le> c \<and> (k' < k \<longrightarrow> c' < c))"
    using assms(2) by blast
  then show ?thesis
    unfolding spec_best_match_def by simp
qed

lemma best_fold_invariant:
  fixes evals :: "(pyval \<times> real) option list"
  defines "step \<equiv> (\<lambda>e st. case e of None \<Rightarrow> st | Some sc \<Rightarrow> update_best sc st)"
  shows "spec_best_match evals (fst (fold step evals (None, 0)))
         \<and> snd (fold step evals (None, 0))
             = (case fst (fold step evals (None, 0)) of None \<Rightarrow> 0 | Some r \<Rightarrow> mr_confidence r)"
proof (induction evals rule: rev_induct)
  case Nil
  then show ?case by (simp add: spec_best_match_def)
next
  case (snoc e P)
  define st where "st = fold step P (None, 0)"
  have f: "fold step (P @ [e]) (None, 0) = step e st" by (simp add: st_def)
  have inv: "spec_best_match P (fst st)"
    and coh: "snd st = (case fst st of None \<Rightarrow> 0 | Some r \<Rightarrow> mr_confidence r)"
    using snoc by (simp_all add: st_def)
  have thr: "0 < match_threshold" by (simp add: match_threshold_def)
  show ?case
  proof (cases e)
    case None
    then have "step e st = st" by (simp add: step_def)
    then show ?thesis unfolding f using inv coh None spec_best_skip by simp
  next
    case (Some sc)
    obtain s c where sc: "sc = (s, c)" by (cases sc) auto
    show ?thesis
    proof (cases "c > snd st \<and> c \<ge> match_threshold")
      case True
      then have u: "step e st = (Some \<lparr>mr_studentId = s, mr_confidence = c\<rparr>, c)"
        by (simp add: step_def Some sc update_best_def)
      have "case fst st of None \<Rightarrow> True | Some r \<Rightarrow> mr_confidence r < c"
        using True coh by (simp split: option.splits)
      then have "spec_best_match (P @ [Some (s, c)]) (Some \<lparr>mr_studentId = s, mr_confidence = c\<rparr>)"
        using inv True spec_best_new by blast
      then show ?thesis unfolding f u by (simp add: Some sc)
    next
      case False
      then have u: "step e st = st"
        by (auto simp: step_def Some sc update_best_def)
      have "spec_best_match (P @ [Some (s, c)]) (fst st)"
      proof (cases "fst st")
        case None
        then have "snd st = 0" using coh by simp
        then have "c < match_threshold" using False thr by auto
        then show ?thesis using inv None spec_best_keep_none by simp
      next
        case (Some r)
        then have b: "snd st = mr_confidence r" using coh by simp
        have "match_threshold \<le> mr_confidence r"
          using inv Some unfolding spec_best_match_def by auto
        then have "c \<le> mr_confidence r" using False b by auto
        then show ?thesis using inv Some spec_best_keep_some by simp
      qed
      then show ?thesis unfolding f u using coh by (simp add: Some sc)
    qed
  qed
qed

lemma spec_best_match_unique:
  assumes "spec_best_match evals res" "spec_best_match evals res'"
  shows "res = res'"
proof (cases res)
  case None
  show ?thesis
  proof (cases res')
    case None
    with \<open>res = None\<close> show ?thesis by simp
  next
    case (Some r')
    then show ?thesis
      using assms None unfolding spec_best_match_def by fastforce
  qed
next
  case (Some r)
  show ?thesis
  proof (cases res')
    case None
    then show ?thesis
      using assms Some unfolding spec_best_match_def by fastforce
  next
    case r': (Some r')
    from assms(1) Some obtain k where k: "k < length evals"
      "evals ! k = Some (mr_studentId r, mr_confidence r)"
      "\<forall>k' < length evals. \<forall>s c. evals ! k' = Some (s, c) \<longrightarrow>
          c \<le> mr_confidence r \<and> (k' < k \<longrightarrow> c < mr_confidence r)"
      unfolding spec_best_match_def by auto
    from assms(2) r' obtain j where j: "j < length evals"
      "evals ! j = Some (mr_studentId r', mr_confidence r')"
      "\<forall>k' < length evals. \<forall>s c. evals ! k' = Some (s, c) \<longrightarrow>
          c \<le> mr_confidence r' \<and> (k' < j \<longrightarrow> c < mr_confidence r')"
      unfolding spec_best_match_def by auto
    have c1: "mr_confidence r' \<le> mr_confidence r" using k(3) j(1,2) by blast
    have c2: "mr_confidence r \<le> mr_confidence r'" using j(3) k(1,2) by blast
    have ceq: "mr_confidence r = mr_confidence r'" using c1 c2 by simp
    have "\<not> j < k" using k(3) j(1,2) ceq by fastforce
    moreover have "\<not> k < j" using j(3) k(1,2) ceq by fastforce
    ultimately have "j = k" by simp
    then have "mr_studentId r = mr_studentId r'" using k(2) j(2) by simp
    then have "r = r'" using ceq by simp
    then show ?thesis using Some r' by simp
  qed
qed

subsection \<open>Concrete templates\<close>

text \<open>
  The strings below are what \<open>_generate_template\<close> returns for one minutia at (0, 0) and
  for one at (30, 40), quality 0.8 and a 300 by 256 image; the other two are the base64
  texts of \<open>[1]\<close> and of \<open>{"version":"9.9"}\<close>.
\<close>

lemma decode_example_origin:
  "decode_template (PStr (S ''eyJ2ZXJzaW9uIjoiMS4wIiwicXVhbGl0eSI6MC44LCJpbWFnZV9zaGFwZSI6WzMwMCwyNTZdLCJtaW51dGlhZSI6W3sieCI6MCwieSI6MCwib3JpZW50YXRpb24iOjAuMCwidHlwZSI6ImJpZnVyY2F0aW9uIn1dLCJtaW51dGlhZV9jb3VudCI6MSwiY3JlYXRlZF9hdCI6bnVsbH0=''))
   = template_data
       [minutia_dict \<lparr>m_x = 0, m_y = 0, m_orientation = S ''0.0'', m_type = S ''bifurcation''\<rparr>]
       (S ''0.8'') (300, 256)"
  by code_simp

lemma decode_example_far:
  "decode_template (PStr (S ''eyJ2ZXJzaW9uIjoiMS4wIiwicXVhbGl0eSI6MC44LCJpbWFnZV9zaGFwZSI6WzMwMCwyNTZdLCJtaW51dGlhZSI6W3sieCI6MzAsInkiOjQwLCJvcmllbnRhdGlvbiI6MC4wLCJ0eXBlIjoiYmlmdXJjYXRpb24ifV0sIm1pbnV0aWFlX2NvdW50IjoxLCJjcmVhdGVkX2F0IjpudWxsfQ==''))
   = template_data
       [minutia_dict \<lparr>m_x = 30, m_y = 40, m_orientation = S ''0.0'', m_type = S ''bifurcation''\<rparr>]
       (S ''0.8'') (300, 256)"
  by code_simp

lemma decode_example_list: "decode_template (PStr (S ''WzFd'')) = PList [PInt 1]"
  by code_simp

lemma decode_example_version:
  "decode_template (PStr (S ''eyJ2ZXJzaW9uIjoiOS45In0='')) = PDict [(S ''version'', PStr (S ''9.9''))]"
  by code_simp

lemma float_val_zero: "float_val (S ''0.0'') = Some 0"
  by (simp add: float_val_def digits_val_def exp_val_def match_number_def match_integer_def
      match_natural_def match_frac_def match_exp_def match_digits1_def is_digit_def)

lemma template_data_minutiae:
  "py_get (template_data ms q shape) (S ''minutiae'') (PList []) = Inr (PList ms)"
  by (simp add: template_data_def)

lemma template_data_truthy: "truthy (template_data ms q shape)"
  by (simp add: template_data_def)

lemma confidence_origin_far:
  "calculate_match_confidence
     (PList [minutia_dict \<lparr>m_x = 0, m_y = 0, m_orientation = S ''0.0'', m_type = S ''bifurcation''\<rparr>])
     (PList [minutia_dict \<lparr>m_x = 30, m_y = 40, m_orientation = S ''0.0'', m_type = S ''bifurcation''\<rparr>])
   = 7 / 10"
proof -
  have r: "sqrt 2500 = 50" using real_sqrt_abs[of 50] by simp
  have e: "find_minutiae_correspondences [(0, 0)] [(30, 40)] [0] [0] = [(0, 0, 50, 0)]"
    by (simp add: search_eval r)
  show ?thesis
    by (simp add: calculate_match_confidence_def minutia_point_def minutia_orientation_def
        minutia_dict_def float_val_zero[simplified] e confidence_of_matches_def
        distance_score_def orientation_score_def max_distance_threshold_def
        orientation_tolerance_def)
qed

lemma confidence_origin_self:
  "calculate_match_confidence
     (PList [minutia_dict \<lparr>m_x = 0, m_y = 0, m_orientation = S ''0.0'', m_type = S ''bifurcation''\<rparr>])
     (PList [minutia_dict \<lparr>m_x = 0, m_y = 0, m_orientation = S ''0.0'', m_type = S ''bifurcation''\<rparr>])
   = 1"
proof -
  have p: "traverse minutia_point
     [minutia_dict \<lparr>m_x = 0, m_y = 0, m_orientation = S ''0.0'', m_type = S ''bifurcation''\<rparr>]
     = Inr [(0, 0)]"
    by (simp add: minutia_point_def minutia_dict_def)
  have o: "traverse minutia_orientation
     [minutia_dict \<lparr>m_x = 0, m_y = 0, m_orientation = S ''0.0'', m_type = S ''bifurcation''\<rparr>]
     = Inr [0]"
    by (simp add: minutia_orientation_def minutia_dict_def float_val_zero[simplified])
  show ?thesis
    by (rule traverse_minutiae_self(2)[OF _ p o]) simp
qed

subsection \<open>The claims about the best-match search\<close>

lemma match_fingerprint_selected:
  assumes "decode_template input_template = input_data" "truthy input_data"
    and "py_get input_data (S ''minutiae'') (PList []) = Inr input_minutiae"
    and "truthy input_minutiae"
    and "traverse (candidate_confidence input_minutiae) templates = Inr evals"
  shows "spec_best_match evals (match_fingerprint input_template templates)"
proof -
  define step :: "(pyval \<times> real) option \<Rightarrow> match_result option \<times> real \<Rightarrow> match_result option \<times> real"
    where "step = (\<lambda>e st. case e of None \<Rightarrow> st | Some sc \<Rightarrow> update_best sc st)"
  have "match_loop input_minutiae templates (None, 0) = Inr (fold step evals (None, 0))"
    unfolding step_def using assms(5) by (rule match_loop_traverse)
  then have "match_fingerprint input_template templates = fst (fold step evals (None, 0))"
    using assms(1-4) by (simp add: match_fingerprint_def Let_def split: prod.splits)
  then show ?thesis
    using best_fold_invariant[of evals] by (simp add: step_def)
qed

text \<open>
  C6. When the input template decodes to a record with minutiae and no candidate raises,
  \<open>match_fingerprint\<close> returns the result the specification describes, and that result
  is unique: the earliest candidate attaining the highest confidence among those of
  confidence at least the match threshold 0.7, or no match when none reaches the
  threshold. A confidence equal to the threshold is accepted, and of two candidates with
  the same confidence the earlier wins: the instance that follows has two candidates of
  confidence exactly 0.7 and returns the first.
\<close>

theorem best_match_selection:
  assumes "decode_template input_template = input_data" "truthy input_data"
    and "py_get input_data (S ''minutiae'') (PList []) = Inr input_minutiae"
    and "truthy input_minutiae"
    and "traverse (candidate_confidence input_minutiae) templates = Inr evals"
  shows "spec_best_match evals (match_fingerprint input_template templates)
         \<and> (\<forall>res. spec_best_match evals res \<longrightarrow> res = match_fingerprint input_template templates)"
  using match_fingerprint_selected[OF assms] spec_best_match_unique by blast

theorem best_match_selection_witness:
  "match_fingerprint
     (PStr (S ''eyJ2ZXJzaW9uIjoiMS4wIiwicXVhbGl0eSI6MC44LCJpbWFnZV9zaGFwZSI6WzMwMCwyNTZdLCJtaW51dGlhZSI6W3sieCI6MCwieSI6MCwib3JpZW50YXRpb24iOjAuMCwidHlwZSI6ImJpZnVyY2F0aW9uIn1dLCJtaW51dGlhZV9jb3VudCI6MSwiY3JlYXRlZF9hdCI6bnVsbH0=''))
     [PDict [(S ''studentId'', PStr (S ''A'')),
             (S ''template'', PStr (S ''eyJ2ZXJzaW9uIjoiMS4wIiwicXVhbGl0eSI6MC44LCJpbWFnZV9zaGFwZSI6WzMwMCwyNTZdLCJtaW51dGlhZSI6W3sieCI6MzAsInkiOjQwLCJvcmllbnRhdGlvbiI6MC4wLCJ0eXBlIjoiYmlmdXJjYXRpb24ifV0sIm1pbnV0aWFlX2NvdW50IjoxLCJjcmVhdGVkX2F0IjpudWxsfQ==''))],
      PDict [(S ''studentId'', PStr (S ''B'')),
             (S ''template'', PStr (S ''eyJ2ZXJzaW9uIjoiMS4wIiwicXVhbGl0eSI6MC44LCJpbWFnZV9zaGFwZSI6WzMwMCwyNTZdLCJtaW51dGlhZSI6W3sieCI6MzAsInkiOjQwLCJvcmllbnRhdGlvbiI6MC4wLCJ0eXBlIjoiYmlmdXJjYXRpb24ifV0sIm1pbnV0aWFlX2NvdW50IjoxLCJjcmVhdGVkX2F0IjpudWxsfQ==''))]]
   = Some \<lparr>mr_studentId = PStr (S ''A''), mr_confidence = 7 / 10\<rparr>
   \<and> match_threshold = 7 / 10"
proof -
  define T0 where "T0 = PStr (S ''eyJ2ZXJzaW9uIjoiMS4wIiwicXVhbGl0eSI6MC44LCJpbWFnZV9zaGFwZSI6WzMwMCwyNTZdLCJtaW51dGlhZSI6W3sieCI6MCwieSI6MCwib3JpZW50YXRpb24iOjAuMCwidHlwZSI6ImJpZnVyY2F0aW9uIn1dLCJtaW51dGlhZV9jb3VudCI6MSwiY3JlYXRlZF9hdCI6bnVsbH0='')"
  define T1 where "T1 = PStr (S ''eyJ2ZXJzaW9uIjoiMS4wIiwicXVhbGl0eSI6MC44LCJpbWFnZV9zaGFwZSI6WzMwMCwyNTZdLCJtaW51dGlhZSI6W3sieCI6MzAsInkiOjQwLCJvcmllbnRhdGlvbiI6MC4wLCJ0eXBlIjoiYmlmdXJjYXRpb24ifV0sIm1pbnV0aWFlX2NvdW50IjoxLCJjcmVhdGVkX2F0IjpudWxsfQ=='')"
  define m0 where "m0 = minutia_dict \<lparr>m_x = 0, m_y = 0, m_orientation = S ''0.0'', m_type = S ''bifurcation''\<rparr>"
  define m1 where "m1 = minutia_dict \<lparr>m_x = 30, m_y = 40, m_orientation = S ''0.0'', m_type = S ''bifurcation''\<rparr>"
  define cA where "cA = PDict [(S ''studentId'', PStr (S ''A'')), (S ''template'', T1)]"
  define cB where "cB = PDict [(S ''studentId'', PStr (S ''B'')), (S ''template'', T1)]"
  have d0: "decode_template T0 = template_data [m0] (S ''0.8'') (300, 256)"
    unfolding T0_def m0_def by (rule decode_example_origin)
  have d1: "decode_template T1 = template_data [m1] (S ''0.8'') (300, 256)"
    unfolding T1_def m1_def by (rule decode_example_far)
  have T1_str: "truthy T1" by (simp add: T1_def)
  have c: "calculate_match_confidence (PList [m0]) (PList [m1]) = 7 / 10"
    unfolding m0_def m1_def by (rule confidence_origin_far)
  have eA: "candidate_confidence (PList [m0]) cA = Inr (Some (PStr (S ''A''), 7 / 10))"
    using T1_str
    by (simp add: candidate_confidence_def Let_def cA_def d1 template_data_truthy
        template_data_minutiae[simplified] c)
  have eB: "candidate_confidence (PList [m0]) cB = Inr (Some (PStr (S ''B''), 7 / 10))"
    using T1_str
    by (simp add: candidate_confidence_def Let_def cB_def d1 template_data_truthy
        template_data_minutiae[simplified] c)
  have tr: "traverse (candidate_confidence (PList [m0])) [cA, cB]
            = Inr [Some (PStr (S ''A''), 7 / 10), Some (PStr (S ''B''), 7 / 10)]"
    by (simp add: eA eB)
  have sp: "spec_best_match [Some (PStr (S ''A''), 7 / 10), Some (PStr (S ''B''), 7 / 10)]
              (Some \<lparr>mr_studentId = PStr (S ''A''), mr_confidence = 7 / 10\<rparr>)"
    unfolding spec_best_match_def
    by (simp, rule exI[of _ 0]) (simp add: match_threshold_def less_Suc_eq)
  have "Some \<lparr>mr_studentId = PStr (S ''A''), mr_confidence = 7 / 10\<rparr>
        = match_fingerprint T0 [cA, cB]"
    using best_match_selection[OF d0 template_data_truthy template_data_minutiae _ tr] sp
    by simp
  then show ?thesis
    by (simp add: T0_def T1_def cA_def cB_def match_threshold_def)
qed

lemma skipped_candidate_removable:
  assumes "candidate_confidence input_minutiae c = Inr None"
  shows "match_loop input_minutiae (before @ c # after) st
         = match_loop input_minutiae (before @ after) st"
  using assms
proof (induction before arbitrary: st)
  case Nil
  then show ?case by simp
next
  case (Cons b bs)
  then show ?case by (simp split: sum.splits option.splits)
qed

text \<open>
  A candidate whose template does not decode, decodes to an empty value, or decodes to a
  record without minutiae is skipped: the search returns what it returns without it.
\<close>

lemma undecodable_candidate_skipped:
  assumes "decode_template tpl = PNone
           \<or> \<not> truthy (decode_template tpl)
           \<or> (\<exists>kvs. decode_template tpl = PDict kvs
                \<and> (map_of kvs (S ''minutiae'') = None
                    \<or> (\<exists>v. map_of kvs (S ''minutiae'') = Some v \<and> \<not> truthy v)))"
    and "map_of ckvs (S ''template'') = Some tpl"
  shows "match_fingerprint input_template (before @ PDict ckvs # after)
         = match_fingerprint input_template (before @ after)"
proof -
  have h: "candidate_confidence input_minutiae (PDict ckvs) = Inr None" for input_minutiae
    using assms
    by (auto simp: candidate_confidence_def Let_def split: option.splits)
  show ?thesis
    by (simp add: match_fingerprint_def Let_def skipped_candidate_removable[OF h]
        cong: option.case_cong sum.case_cong if_cong)
qed

text \<open>
  C8. A candidate whose template decodes to a JSON value that is not a record, here the
  list \<open>[1]\<close>, is not skipped: \<open>stored_data.get\<close> raises \<open>AttributeError\<close>, the
  exception leaves the loop and \<open>match_fingerprint\<close> returns no match, although the
  candidate that follows matches the input with confidence 1 and is returned once the
  first candidate is removed.
\<close>

theorem non_record_candidate_aborts_search:
  "decode_template (PStr (S ''WzFd'')) = PList [PInt 1]
   \<and> match_fingerprint
       (PStr (S ''eyJ2ZXJzaW9uIjoiMS4wIiwicXVhbGl0eSI6MC44LCJpbWFnZV9zaGFwZSI6WzMwMCwyNTZdLCJtaW51dGlhZSI6W3sieCI6MCwieSI6MCwib3JpZW50YXRpb24iOjAuMCwidHlwZSI6ImJpZnVyY2F0aW9uIn1dLCJtaW51dGlhZV9jb3VudCI6MSwiY3JlYXRlZF9hdCI6bnVsbH0=''))
       [PDict [(S ''studentId'', PStr (S ''A'')), (S ''template'', PStr (S ''WzFd''))],
        PDict [(S ''studentId'', PStr (S ''B'')),
               (S ''template'', PStr (S ''eyJ2ZXJzaW9uIjoiMS4wIiwicXVhbGl0eSI6MC44LCJpbWFnZV9zaGFwZSI6WzMwMCwyNTZdLCJtaW51dGlhZSI6W3sieCI6MCwieSI6MCwib3JpZW50YXRpb24iOjAuMCwidHlwZSI6ImJpZnVyY2F0aW9uIn1dLCJtaW51dGlhZV9jb3VudCI6MSwiY3JlYXRlZF9hdCI6bnVsbH0=''))]]
     = None
   \<and> match_fingerprint
       (PStr (S ''eyJ2ZXJzaW9uIjoiMS4wIiwicXVhbGl0eSI6MC44LCJpbWFnZV9zaGFwZSI6WzMwMCwyNTZdLCJtaW51dGlhZSI6W3sieCI6MCwieSI6MCwib3JpZW50YXRpb24iOjAuMCwidHlwZSI6ImJpZnVyY2F0aW9uIn1dLCJtaW51dGlhZV9jb3VudCI6MSwiY3JlYXRlZF9hdCI6bnVsbH0=''))
       [PDict [(S ''studentId'', PStr (S ''B'')),
               (S ''template'', PStr (S ''eyJ2ZXJzaW9uIjoiMS4wIiwicXVhbGl0eSI6MC44LCJpbWFnZV9zaGFwZSI6WzMwMCwyNTZdLCJtaW51dGlhZSI6W3sieCI6MCwieSI6MCwib3JpZW50YXRpb24iOjAuMCwidHlwZSI6ImJpZnVyY2F0aW9uIn1dLCJtaW51dGlhZV9jb3VudCI6MSwiY3JlYXRlZF9hdCI6bnVsbH0=''))]]
     = Some \<lparr>mr_studentId = PStr (S ''B''), mr_confidence = 1\<rparr>"
proof -
  define T0 where "T0 = PStr (S ''eyJ2ZXJzaW9uIjoiMS4wIiwicXVhbGl0eSI6MC44LCJpbWFnZV9zaGFwZSI6WzMwMCwyNTZdLCJtaW51dGlhZSI6W3sieCI6MCwieSI6MCwib3JpZW50YXRpb24iOjAuMCwidHlwZSI6ImJpZnVyY2F0aW9uIn1dLCJtaW51dGlhZV9jb3VudCI6MSwiY3JlYXRlZF9hdCI6bnVsbH0='')"
  define m0 where "m0 = minutia_dict \<lparr>m_x = 0, m_y = 0, m_orientation = S ''0.0'', m_type = S ''bifurcation''\<rparr>"
  define cA where "cA = PDict [(S ''studentId'', PStr (S ''A'')), (S ''template'', PStr (S ''WzFd''))]"
  define cB where "cB = PDict [(S ''studentId'', PStr (S ''B'')), (S ''template'', T0)]"
  have d0: "decode_template T0 = template_data [m0] (S ''0.8'') (300, 256)"
    unfolding T0_def m0_def by (rule decode_example_origin)
  have T0_str: "truthy T0" by (simp add: T0_def)
  have c: "calculate_match_confidence (PList [m0]) (PList [m0]) = 1"
    unfolding m0_def by (rule confidence_origin_self)
  have eA: "candidate_confidence (PList [m0]) cA = Inl AttributeError"
    by (simp add: candidate_confidence_def Let_def cA_def decode_example_list[simplified])
  have eB: "candidate_confidence (PList [m0]) cB = Inr (Some (PStr (S ''B''), 1))"
    using T0_str
    by (simp add: candidate_confidence_def Let_def cB_def d0 template_data_truthy
        template_data_minutiae[simplified] c)
  have r1: "match_fingerprint T0 [cA, cB] = None"
    by (simp add: match_fingerprint_def Let_def d0 template_data_truthy
        template_data_minutiae[simplified] eA)
  have r2: "match_fingerprint T0 [cB] = Some \<lparr>mr_studentId = PStr (S ''B''), mr_confidence = 1\<rparr>"
    by (simp add: match_fingerprint_def Let_def d0 template_data_truthy
        template_data_minutiae[simplified] eB update_best_def match_threshold_def)
  show ?thesis
    using r1 r2 decode_example_list by (simp add: T0_def cA_def cB_def)
qed

text \<open>
  C10. If the input template does not decode, or decodes to a record whose minutiae are
  absent or empty, \<open>match_fingerprint\<close> returns no match, whatever the candidate list:
  no candidate is looked at and nothing is raised.
\<close>

theorem undecodable_input_no_match:
  assumes "decode_template input_template = PNone
           \<or> (\<exists>kvs. decode_template input_template = PDict kvs
                \<and> (map_of kvs (S ''minutiae'') = None
                    \<or> map_of kvs (S ''minutiae'') = Some (PList [])))"
  shows "match_fingerprint input_template templates = None"
  using assms by (auto simp: match_fingerprint_def Let_def)

theorem undecodable_input_no_match_witness:
  "decode_template (PStr (S ''eyJ2ZXJzaW9uIjoiOS45In0=''))
     = PDict [(S ''version'', PStr (S ''9.9''))]
   \<and> match_fingerprint (PStr (S ''eyJ2ZXJzaW9uIjoiOS45In0=''))
       [PDict [(S ''studentId'', PStr (S ''B'')),
               (S ''template'', PStr (S ''eyJ2ZXJzaW9uIjoiOS45In0=''))]]
     = None"
proof -
  have "map_of [(S ''version'', PStr (S ''9.9''))] (S ''minutiae'') = None" by simp
  then show ?thesis
    using undecodable_input_no_match[of "PStr (S ''eyJ2ZXJzaW9uIjoiOS45In0='')"
        "[PDict [(S ''studentId'', PStr (S ''B'')),
                 (S ''template'', PStr (S ''eyJ2ZXJzaW9uIjoiOS45In0=''))]]"]
      decode_example_version
    by blast
qed

section \<open>Properties of the template codec\<close>

subsection \<open>base64 and UTF-8 on ASCII text\<close>

lemma b64_char_value: "n < 64 \<Longrightarrow> table_a2b_base64 (b64_char n) = Some n"
  by (auto simp: table_a2b_base64_def b64_char_def)

lemma b64_char_not_pad: "n < 64 \<Longrightarrow> b64_char n \<noteq> 61"
  by (auto simp: b64_char_def)

lemma b64_char_ascii: "n < 64 \<Longrightarrow> b64_char n < 128"
  by (auto simp: b64_char_def)

lemma a2b_quad:
  assumes "v1 < 64" "v2 < 64" "v3 < 64" "v4 < 64"
  shows "a2b_base64 (b64_char v1 # b64_char v2 # b64_char v3 # b64_char v4 # rest) 0 0 0 out
         = a2b_base64 rest 0 0 0
             (out @ [v1 * 4 + v2 div 16, (v2 mod 16) * 16 + v3 div 4, (v3 mod 4) * 64 + v4])"
  using assms by (simp add: b64_char_value b64_char_not_pad)

lemma a2b_two_pad:
  assumes "v1 < 64" "v2 < 64"
  shows "a2b_base64 [b64_char v1, b64_char v2, 61, 61] 0 0 0 out = Some (out @ [v1 * 4 + v2 div 16])"
  using assms by (simp add: b64_char_value b64_char_not_pad)

lemma a2b_one_pad:
  assumes "v1 < 64" "v2 < 64" "v3 < 64"
  shows "a2b_base64 [b64_char v1, b64_char v2, b64_char v3, 61] 0 0 0 out
         = Some (out @ [v1 * 4 + v2 div 16, (v2 mod 16) * 16 + v3 div 4])"
  using assms by (simp add: b64_char_value b64_char_not_pad)

lemma sextets:
  fixes a b c :: nat
  assumes "a < 256" "b < 256" "c < 256"
  shows "a div 4 < 64" "(a mod 4) * 16 + b div 16 < 64" "(b mod 16) * 4 + c div 64 < 64"
    "c mod 64 < 64" "(a mod 4) * 16 < 64" "(b mod 16) * 4 < 64"
  using assms by linarith+

lemma sextets2:
  fixes a b c :: nat
  assumes "a < 256" "b < 256" "c < 256"
  shows 
    "(a div 4) * 4 + ((a mod 4) * 16 + b div 16) div 16 = a"
proof -
  have "b div 16 < 16" using assms by linarith
  then have "((a mod 4) * 16 + b div 16) div 16 = a mod 4" by simp
  then show ?thesis by simp
qed

lemma sextets3:
  fixes a b c :: nat
  assumes "a < 256" "b < 256" "c < 256"
  shows "(((a mod 4) * 16 + b div 16) mod 16) * 16 + ((b mod 16) * 4 + c div 64) div 4 = b"
proof -
  have "b div 16 < 16" using assms by linarith
  then have 1: "((a mod 4) * 16 + b div 16) mod 16 = b div 16" by simp
  have "c div 64 < 4" using assms by linarith
  then have 2: "((b mod 16) * 4 + c div 64) div 4 = b mod 16" by simp
  show ?thesis unfolding 1 2 by simp
qed

lemma sextets4:
  fixes a b c :: nat
  assumes "a < 256" "b < 256" "c < 256"
  shows "(((b mod 16) * 4 + c div 64) mod 4) * 64 + c mod 64 = c"
proof -
  have "c div 64 < 4" using assms by linarith
  then have 1: "((b mod 16) * 4 + c div 64) mod 4 = c div 64" by simp
  show ?thesis unfolding 1 by simp
qed

lemma sextets5:
  fixes a b :: nat
  shows "(a div 4) * 4 + ((a mod 4) * 16) div 16 = a"
    "b div 16 < 16 \<Longrightarrow> (((a mod 4) * 16 + b div 16) mod 16) * 16 + ((b mod 16) * 4) div 4 = b"
  by simp_all

lemma a2b_b64encode:
  "\<forall>b \<in> set bs. b < 256 \<Longrightarrow> a2b_base64 (b64encode bs) 0 0 0 out = Some (out @ bs)"
proof (induction bs arbitrary: out rule: b64encode.induct)
  case 1
  then show ?case by simp
next
  case (2 a)
  then have a: "a < 256" by simp
  show ?case
    using a2b_two_pad[OF sextets(1)[OF a a a] sextets(5)[OF a a a], of out] sextets5(1)[of a]
    by simp
next
  case (3 a b)
  then have a: "a < 256" and b: "b < 256" by simp_all
  have b16: "b div 16 < 16" using b by linarith
  show ?case
    using a2b_one_pad[OF sextets(1)[OF a b b] sextets(2)[OF a b b] sextets(6)[OF a b b], of out]
      sextets2[OF a b b] sextets5(2)[OF b16, of a]
    by simp
next
  case (4 a b c rest)
  then have a: "a < 256" and b: "b < 256" and c: "c < 256" and r: "\<forall>b \<in> set rest. b < 256"
    by simp_all
  have q: "a2b_base64 (b64encode (a # b # c # rest)) 0 0 0 out
           = a2b_base64 (b64encode rest) 0 0 0 (out @ [a, b, c])"
    using a2b_quad[OF sextets(1)[OF a b c] sextets(2)[OF a b c] sextets(3)[OF a b c]
        sextets(4)[OF a b c], of "b64encode rest" out]
    by (simp only: b64encode.simps append_Cons append_Nil sextets2[OF a b c] sextets3[OF a b c]
        sextets4[OF a b c])
  show ?case unfolding q using "4.IH"[OF r, of "out @ [a, b, c]"] by simp
qed

lemma b64encode_ascii: "\<forall>b \<in> set bs. b < 256 \<Longrightarrow> \<forall>c \<in> set (b64encode bs). c < 128"
proof (induction bs rule: b64encode.induct)
  case 1
  then show ?case by simp
next
  case (2 a)
  then have a: "a < 256" by simp
  show ?case using sextets(1,5)[OF a a a] by (simp add: b64_char_ascii)
next
  case (3 a b)
  then have a: "a < 256" and b: "b < 256" by simp_all
  show ?case using sextets(1,2,6)[OF a b b] by (simp add: b64_char_ascii)
next
  case (4 a b c rest)
  then have a: "a < 256" and b: "b < 256" and c: "c < 256" and r: "\<forall>b \<in> set rest. b < 256"
    by simp_all
  show ?case using sextets(1,2,3,4)[OF a b c] "4.IH"[OF r] by (simp add: b64_char_ascii)
qed

lemma bytes_decode_ascii: "\<forall>b \<in> set bs. b < 128 \<Longrightarrow> bytes_decode bs = Some bs"
  by (induction bs) simp_all

lemma str_encode_ascii: "\<forall>c \<in> set s. c < 128 \<Longrightarrow> str_encode s = Some s"
  by (induction s) (simp_all add: encode_code_point_def)

lemma b64_round_trip:
  assumes "\<forall>b \<in> set bs. b < 128"
  shows "bytes_decode (b64encode bs) = Some (b64encode bs)"
    and "b64decode (b64encode bs) = Some bs"
proof -
  have b: "\<forall>b \<in> set bs. b < 256" using assms by fastforce
  have asc: "\<forall>c \<in> set (b64encode bs). c < 128" using b by (rule b64encode_ascii)
  show "bytes_decode (b64encode bs) = Some (b64encode bs)"
    using asc by (rule bytes_decode_ascii)
  have "\<not> (\<exists>c \<in> set (b64encode bs). c \<ge> 128)" using asc by fastforce
  then show "b64decode (b64encode bs) = Some bs"
    using a2b_b64encode[OF b, of "[]"] by (simp add: b64decode_def)
qed

subsection \<open>Printing and scanning numbers\<close>

declare nat_repr.simps [simp del]

lemma nat_repr_digits: "\<forall>c \<in> set (nat_repr n). is_digit c"
proof (induction n rule: nat_repr.induct)
  case (1 n)
  show ?case
  proof (cases "n < 10")
    case True
    then show ?thesis by (subst nat_repr.simps) (simp add: is_digit_def)
  next
    case False
    have "n mod 10 < 10" by simp
    then have "is_digit (48 + n mod 10)" unfolding is_digit_def by linarith
    then show ?thesis using 1 False by (subst nat_repr.simps) simp
  qed
qed

lemma nat_repr_nonempty: "nat_repr n \<noteq> []"
  by (subst nat_repr.simps) simp

lemma nat_repr_hd: "hd (nat_repr n) = 48 \<longleftrightarrow> n = 0"
proof (induction n rule: nat_repr.induct)
  case (1 n)
  show ?case
  proof (cases "n < 10")
    case True
    then show ?thesis by (subst nat_repr.simps) simp
  next
    case False
    then have "n div 10 \<noteq> 0" by simp
    then have "hd (nat_repr (n div 10)) \<noteq> 48" using 1 False by simp
    then show ?thesis using False nat_repr_nonempty[of "n div 10"]
      by (subst nat_repr.simps) simp
  qed
qed

lemma digits_val_snoc: "digits_val (ds @ [c]) = 10 * digits_val ds + (c - 48)"
  by (simp add: digits_val_def)

lemma digits_val_nat_repr: "digits_val (nat_repr n) = n"
proof (induction n rule: nat_repr.induct)
  case (1 n)
  show ?case
  proof (cases "n < 10")
    case True
    then show ?thesis by (subst nat_repr.simps) (simp add: digits_val_def)
  next
    case False
    then show ?thesis using 1 by (subst nat_repr.simps) (simp add: digits_val_snoc)
  qed
qed

lemma takeWhile_append_stop:
  assumes "rest = [] \<or> \<not> P (hd rest)"
  shows "takeWhile P (xs @ rest) = takeWhile P xs"
    and "dropWhile P (xs @ rest) = dropWhile P xs @ rest"
  using assms by (induction xs) (auto simp: takeWhile_eq_Nil_iff dropWhile_eq_self_iff)

text \<open>
  In the text \<open>json.dumps\<close> writes, a value is followed by nothing, by a comma or by a
  closing bracket; a number scanned in front of such a rest ends where it was printed.
\<close>

lemma match_digits1_append:
  assumes "rest = [] \<or> \<not> is_digit (hd rest)"
  shows "match_digits1 (s @ rest)
         = (case match_digits1 s of None \<Rightarrow> None | Some (m, r) \<Rightarrow> Some (m, r @ rest))"
proof (cases s)
  case Nil
  then show ?thesis using assms by (cases rest) (auto simp: match_digits1_def)
next
  case (Cons c t)
  then show ?thesis
    using takeWhile_append_stop[where P = is_digit and rest = rest and xs = t] assms
    by (simp add: match_digits1_def)
qed

lemma match_natural_append:
  assumes "rest = [] \<or> \<not> is_digit (hd rest)"
  shows "match_natural (s @ rest)
         = (case match_natural s of None \<Rightarrow> None | Some (m, r) \<Rightarrow> Some (m, r @ rest))"
proof (cases s)
  case Nil
  then show ?thesis
    using assms by (cases rest) (auto simp: match_natural_def match_digits1_def is_digit_def)
next
  case (Cons c t)
  show ?thesis
  proof (cases "c = 48")
    case True
    then show ?thesis using Cons by (simp add: match_natural_def)
  next
    case False
    then have "match_natural (s @ rest) = match_digits1 (s @ rest)"
      "match_natural s = match_digits1 s"
      using Cons by (simp_all add: match_natural_def)
    then show ?thesis using match_digits1_append[OF assms, of s] by simp
  qed
qed

lemma match_integer_append:
  assumes "rest = [] \<or> (\<not> is_digit (hd rest) \<and> hd rest \<noteq> 45)"
  shows "match_integer (s @ rest)
         = (case match_integer s of None \<Rightarrow> None | Some (m, r) \<Rightarrow> Some (m, r @ rest))"
proof -
  have nd: "rest = [] \<or> \<not> is_digit (hd rest)" using assms by blast
  show ?thesis
  proof (cases s)
    case Nil
    then show ?thesis
      using assms
      by (cases rest) (auto simp: match_integer_def match_natural_def match_digits1_def is_digit_def)
  next
    case (Cons c t)
    show ?thesis
    proof (cases "c = 45")
      case True
      then show ?thesis
        using Cons match_natural_append[OF nd, of t]
        by (simp add: match_integer_def split: option.splits)
    next
      case False
      then have "match_integer (s @ rest) = match_natural (s @ rest)"
        "match_integer s = match_natural s"
        using Cons by (simp_all add: match_integer_def)
      then show ?thesis using match_natural_append[OF nd, of s] by simp
    qed
  qed
qed

lemma match_frac_append:
  assumes "rest = [] \<or> (\<not> is_digit (hd rest) \<and> hd rest \<noteq> 46)"
  shows "match_frac (s @ rest) = (fst (match_frac s), snd (match_frac s) @ rest)"
proof -
  have nd: "rest = [] \<or> \<not> is_digit (hd rest)" using assms by blast
  show ?thesis
  proof (cases s)
    case Nil
    then show ?thesis using assms by (cases rest) (auto simp: match_frac_def)
  next
    case (Cons c t)
    then show ?thesis
      using match_digits1_append[OF nd, of t]
      by (auto simp: match_frac_def split: option.splits)
  qed
qed

lemma match_exp_append:
  assumes "rest = [] \<or> (\<not> is_digit (hd rest) \<and> hd rest \<notin> {101, 69, 45, 43})"
  shows "match_exp (s @ rest) = (fst (match_exp s), snd (match_exp s) @ rest)"
proof -
  have nd: "rest = [] \<or> \<not> is_digit (hd rest)" using assms by blast
  have none: "match_digits1 rest = None"
    using nd by (cases rest) (auto simp: match_digits1_def)
  show ?thesis
  proof (cases s)
    case Nil
    then show ?thesis using assms by (cases rest) (auto simp: match_exp_def)
  next
    case c: (Cons c t)
    show ?thesis
    proof (cases "c = 101 \<or> c = 69")
      case False
      then show ?thesis using c by (auto simp: match_exp_def)
    next
      case True
      show ?thesis
      proof (cases t)
        case Nil
        then show ?thesis
          using c True assms none
          by (cases rest) (auto simp: match_exp_def match_digits1_def split: option.splits)
      next
        case d: (Cons d u)
        show ?thesis
        proof (cases "d = 45 \<or> d = 43")
          case True
          then show ?thesis
            using c d \<open>c = 101 \<or> c = 69\<close> match_digits1_append[OF nd, of u]
            by (auto simp: match_exp_def split: option.splits)
        next
          case False
          then show ?thesis
            using c d \<open>c = 101 \<or> c = 69\<close> match_digits1_append[OF nd, of t]
            by (auto simp: match_exp_def split: option.splits)
        qed
      qed
    qed
  qed
qed

lemma match_number_append:
  assumes "rest = [] \<or> hd rest = 44 \<or> hd rest = 93 \<or> hd rest = 125"
  shows "match_number (s @ rest)
         = (case match_number s of None \<Rightarrow> None
            | Some (i, f, e, r) \<Rightarrow> Some (i, f, e, r @ rest))"
proof -
  have a1: "rest = [] \<or> (\<not> is_digit (hd rest) \<and> hd rest \<noteq> 45)"
    and a2: "rest = [] \<or> (\<not> is_digit (hd rest) \<and> hd rest \<noteq> 46)"
    and a3: "rest = [] \<or> (\<not> is_digit (hd rest) \<and> hd rest \<notin> {101, 69, 45, 43})"
    using assms by (auto simp: is_digit_def)
  show ?thesis
  proof (cases "match_integer s")
    case None
    then show ?thesis using match_integer_append[OF a1, of s] by (simp add: match_number_def)
  next
    case (Some ir)
    obtain i r1 where ir: "ir = (i, r1)" by (cases ir) auto
    have mi: "match_integer (s @ rest) = Some (i, r1 @ rest)"
      using match_integer_append[OF a1, of s] Some ir by simp
    obtain f r2 where f: "match_frac r1 = (f, r2)" by (cases "match_frac r1") auto
    have mf: "match_frac (r1 @ rest) = (f, r2 @ rest)"
      using match_frac_append[OF a2, of r1] f by simp
    obtain e r3 where e: "match_exp r2 = (e, r3)" by (cases "match_exp r2") auto
    have me: "match_exp (r2 @ rest) = (e, r3 @ rest)"
      using match_exp_append[OF a3, of r2] e by simp
    show ?thesis
      by (simp add: match_number_def Some ir mi f mf e me)
  qed
qed

lemma match_digits1_parts: "match_digits1 s = Some (m, r) \<Longrightarrow> s = m @ r \<and> (\<forall>c \<in> set m. is_digit c) \<and> m \<noteq> []"
  by (cases s) (auto simp: match_digits1_def split: if_splits dest: set_takeWhileD)

lemma match_natural_parts: "match_natural s = Some (m, r) \<Longrightarrow> s = m @ r \<and> (\<forall>c \<in> set m. is_digit c) \<and> m \<noteq> []"
proof (cases s)
  case Nil
  then show "match_natural s = Some (m, r) \<Longrightarrow> ?thesis" by (simp add: match_natural_def)
next
  case (Cons c t)
  assume a: "match_natural s = Some (m, r)"
  show ?thesis
  proof (cases "c = 48")
    case True
    then show ?thesis using a Cons by (auto simp: match_natural_def is_digit_def)
  next
    case False
    then have "match_digits1 s = Some (m, r)" using a Cons by (simp add: match_natural_def)
    then show ?thesis by (rule match_digits1_parts)
  qed
qed

lemma match_integer_parts:
  "match_integer s = Some (m, r) \<Longrightarrow>
     s = m @ r \<and> (\<forall>c \<in> set m. is_digit c \<or> c = 45) \<and> m \<noteq> []
     \<and> (is_digit (hd m) \<or> (hd m = 45 \<and> tl m \<noteq> [] \<and> is_digit (hd (tl m))))"
proof (cases s)
  case Nil
  then show "match_integer s = Some (m, r) \<Longrightarrow> ?thesis" by (simp add: match_integer_def)
next
  case (Cons c t)
  assume a: "match_integer s = Some (m, r)"
  show ?thesis
  proof (cases "c = 45")
    case True
    then obtain m' where m': "match_natural t = Some (m', r)" "m = 45 # m'"
      using a Cons by (auto simp: match_integer_def split: option.splits)
    from match_natural_parts[OF m'(1)] show ?thesis
      using Cons True m'(2) by (cases m') auto
  next
    case False
    then have "match_natural s = Some (m, r)" using a Cons by (simp add: match_integer_def)
    from match_natural_parts[OF this] show ?thesis by (cases m) auto
  qed
qed

lemma match_frac_parts:
  "match_frac s = (m, r) \<Longrightarrow> s = m @ r \<and> (\<forall>c \<in> set m. is_digit c \<or> c = 46)"
  by (cases s) (auto simp: match_frac_def split: if_splits option.splits dest!: match_digits1_parts)

lemma match_exp_parts:
  "match_exp s = (m, r) \<Longrightarrow> s = m @ r \<and> (\<forall>c \<in> set m. is_digit c \<or> c \<in> {101, 69, 45, 43})"
proof (cases s)
  case Nil
  then show "match_exp s = (m, r) \<Longrightarrow> ?thesis" by (simp add: match_exp_def)
next
  case c: (Cons c t)
  assume a: "match_exp s = (m, r)"
  show ?thesis
  proof (cases t)
    case Nil
    then show ?thesis using a c by (auto simp: match_exp_def split: if_splits)
  next
    case (Cons d u)
    then show ?thesis
      using a c
      by (auto simp: match_exp_def split: if_splits option.splits dest!: match_digits1_parts)
  qed
qed

lemma match_number_parts:
  assumes "match_number s = Some (i, f, e, r)"
  shows "s = i @ f @ e @ r"
    and "\<forall>c \<in> set (i @ f @ e). c < 128"
    and "i \<noteq> []"
    and "is_digit (hd i) \<or> (hd i = 45 \<and> tl i \<noteq> [] \<and> is_digit (hd (tl i)))"
proof -
  from assms obtain r1 r2 where mi: "match_integer s = Some (i, r1)"
    and mf: "match_frac r1 = (f, r2)" and me: "match_exp r2 = (e, r)"
    by (auto simp: match_number_def split: option.splits prod.splits)
  from match_integer_parts[OF mi] match_frac_parts[OF mf] match_exp_parts[OF me]
  show "s = i @ f @ e @ r" by simp
  from match_integer_parts[OF mi] match_frac_parts[OF mf] match_exp_parts[OF me]
  show "\<forall>c \<in> set (i @ f @ e). c < 128" by (auto simp: is_digit_def)
  from match_integer_parts[OF mi] show "i \<noteq> []" by simp
  from match_integer_parts[OF mi]
  show "is_digit (hd i) \<or> (hd i = 45 \<and> tl i \<noteq> [] \<and> is_digit (hd (tl i)))" by simp
qed

lemma int_repr_match:
  "match_integer (int_repr i) = Some (int_repr i, [])"
proof (cases "i < 0")
  case True
  define n where "n = nat (- i)"
  have n: "n \<noteq> 0" using True by (simp add: n_def)
  have r: "int_repr i = 45 # nat_repr n" using True by (simp add: int_repr_def n_def)
  obtain c t where ct: "nat_repr n = c # t" using nat_repr_nonempty[of n] by (cases "nat_repr n") auto
  have c: "is_digit c" "c \<noteq> 48" using nat_repr_digits[of n] nat_repr_hd[of n] n ct by auto
  have t: "takeWhile is_digit t = t" "dropWhile is_digit t = []"
    using nat_repr_digits[of n] ct by (auto simp: takeWhile_eq_all_conv)
  show ?thesis
    unfolding r ct using c t by (simp add: match_integer_def match_natural_def match_digits1_def)
next
  case False
  define n where "n = nat i"
  have r: "int_repr i = nat_repr n" using False by (simp add: int_repr_def n_def)
  obtain c t where ct: "nat_repr n = c # t" using nat_repr_nonempty[of n] by (cases "nat_repr n") auto
  have c: "is_digit c" using nat_repr_digits[of n] ct by auto
  then have c45: "c \<noteq> 45" by (auto simp: is_digit_def)
  have t: "takeWhile is_digit t = t" "dropWhile is_digit t = []"
    using nat_repr_digits[of n] ct by (auto simp: takeWhile_eq_all_conv)
  show ?thesis
  proof (cases "c = 48")
    case True
    then have "n = 0" using nat_repr_hd[of n] ct by simp
    then have "nat_repr n = [48]" by (subst nat_repr.simps) simp
    then show ?thesis unfolding r by (simp add: match_integer_def match_natural_def)
  next
    case False
    then show ?thesis
      unfolding r ct using c c45 t
      by (simp add: match_integer_def match_natural_def match_digits1_def)
  qed
qed

lemma int_val_int_repr: "int_val (int_repr i) = i"
proof (cases "i < 0")
  case True
  then show ?thesis by (simp add: int_val_def int_repr_def digits_val_nat_repr)
next
  case False
  obtain c t where ct: "nat_repr (nat i) = c # t"
    using nat_repr_nonempty[of "nat i"] by (cases "nat_repr (nat i)") auto
  have "is_digit c" using nat_repr_digits[of "nat i"] ct by auto
  then have "c \<noteq> 45" by (auto simp: is_digit_def)
  then show ?thesis
    using False digits_val_nat_repr[of "nat i"] ct
    by (simp add: int_val_def int_repr_def)
qed

lemma scan_number_int:
  assumes "rest = [] \<or> hd rest = 44 \<or> hd rest = 93 \<or> hd rest = 125"
  shows "scan_number (int_repr i @ rest) = Some (PInt i, rest)"
proof -
  have "match_number (int_repr i) = Some (int_repr i, [], [], [])"
    by (simp add: match_number_def int_repr_match match_frac_def match_exp_def)
  then have "match_number (int_repr i @ rest) = Some (int_repr i, [], [], rest)"
    using match_number_append[OF assms, of "int_repr i"] by simp
  then show ?thesis by (simp add: scan_number_def int_val_int_repr)
qed

lemma scan_number_float:
  assumes "float_lit f" and "rest = [] \<or> hd rest = 44 \<or> hd rest = 93 \<or> hd rest = 125"
  shows "scan_number (f @ rest) = Some (PFloat f, rest)"
proof -
  from assms(1) obtain i fr e where m: "match_number f = Some (i, fr, e, [])"
    and fe: "fr \<noteq> [] \<or> e \<noteq> []"
    by (auto simp: float_lit_def split: option.splits)
  have f: "f = i @ fr @ e" using match_number_parts(1)[OF m] by simp
  have "match_number (f @ rest) = Some (i, fr, e, rest)"
    using match_number_append[OF assms(2), of f] m by simp
  then show ?thesis using fe f by (auto simp: scan_number_def)
qed

lemma take_differs: "lit \<noteq> [] \<Longrightarrow> c \<noteq> hd lit \<Longrightarrow> take k (c # t) \<noteq> lit"
  by (cases k; cases lit) auto

lemma scan_once_number:
  assumes "match_integer s = Some (m, r)"
  shows "scan_once (Suc n) s = scan_number s"
proof -
  from match_integer_parts[OF assms] have s: "s = m @ r" and ne: "m \<noteq> []"
    and h: "is_digit (hd m) \<or> (hd m = 45 \<and> tl m \<noteq> [] \<and> is_digit (hd (tl m)))"
    by simp_all
  obtain c t where ct: "s = c # t" using s ne by (cases m) auto
  have c: "c = hd m" using s ne ct by (cases m) auto
  have c_cases: "is_digit c \<or> (c = 45 \<and> t \<noteq> [] \<and> is_digit (hd t))"
    using h c s ne ct by (cases m; cases "tl m") auto
  have c1: "c \<noteq> 34" "c \<noteq> 123" "c \<noteq> 91" "c \<noteq> 110" "c \<noteq> 116" "c \<noteq> 102"
    "c \<noteq> 78" "c \<noteq> 73"
    using c_cases by (auto simp: is_digit_def)
  have n1: "take 4 (c # t) \<noteq> S ''null''" using c1 by (intro take_differs) simp_all
  have n2: "take 4 (c # t) \<noteq> S ''true''" using c1 by (intro take_differs) simp_all
  have n3: "take 5 (c # t) \<noteq> S ''false''" using c1 by (intro take_differs) simp_all
  have n4: "take 3 (c # t) \<noteq> S ''NaN''" using c1 by (intro take_differs) simp_all
  have n5: "take 8 (c # t) \<noteq> S ''Infinity''" using c1 by (intro take_differs) simp_all
  have n6: "take 9 (c # t) \<noteq> S ''-Infinity''"
  proof (cases "c = 45")
    case False
    then show ?thesis by (intro take_differs) simp_all
  next
    case True
    then obtain d u where du: "t = d # u" and d: "is_digit d"
      using c_cases by (cases t) (auto simp: is_digit_def)
    have "d \<noteq> 73" using d by (auto simp: is_digit_def)
    then have "take 8 (d # u) \<noteq> S ''Infinity''" by (intro take_differs) simp_all
    then show ?thesis using du by simp
  qed
  show ?thesis
    unfolding ct scan_once.simps list.case
    using c1 n1 n2 n3 n4 n5 n6 by (simp only: if_False)
qed

lemma float_lit_ascii: "float_lit f \<Longrightarrow> \<forall>c \<in> set f. c < 128"
proof -
  assume "float_lit f"
  then obtain i fr e where m: "match_number f = Some (i, fr, e, [])"
    by (auto simp: float_lit_def split: option.splits)
  from match_number_parts(1,2)[OF m] show ?thesis by simp
qed

lemma float_lit_integer: "float_lit f \<Longrightarrow> \<exists>m r. match_integer f = Some (m, r)"
  by (auto simp: float_lit_def match_number_def split: option.splits)

lemma int_repr_ascii: "\<forall>c \<in> set (int_repr i). c < 128"
proof -
  have "match_number (int_repr i) = Some (int_repr i, [], [], [])"
    by (simp add: match_number_def int_repr_match match_frac_def match_exp_def)
  from match_number_parts(2)[OF this] show ?thesis by simp
qed

subsection \<open>Strings, arrays and objects\<close>

lemma escape_plain: "plain_char c \<Longrightarrow> escape_ascii c = [c]"
  by (auto simp: plain_char_def escape_ascii_def)

lemma encode_plain: "list_all plain_char s \<Longrightarrow> encode_basestring_ascii s = 34 # s @ [34]"
proof -
  assume "list_all plain_char s"
  then have "concat (map escape_ascii s) = s"
    by (induction s) (simp_all add: escape_plain)
  then show ?thesis by (simp add: encode_basestring_ascii_def)
qed

lemma scanstring_plain_char:
  assumes "plain_char c"
  shows "scanstring (c # s) = string_cons c (scanstring s)"
proof -
  have "c \<noteq> 34" "c \<noteq> 92" "\<not> c < 32" using assms by (auto simp: plain_char_def)
  then show ?thesis by (subst scanstring.simps) (simp only: if_False)
qed

lemma scanstring_plain:
  "list_all plain_char s \<Longrightarrow> scanstring (s @ 34 # rest) = Some (s, rest)"
proof (induction s)
  case Nil
  show ?case by (subst append_Nil, subst scanstring.simps) (simp only: simp_thms if_True)
next
  case (Cons c s)
  then have c: "plain_char c" and s: "list_all plain_char s" by simp_all
  show ?case
    using scanstring_plain_char[OF c, of "s @ 34 # rest"] Cons.IH[OF s]
    by (simp add: string_cons_def)
qed

lemma skip_ws_id: "s \<noteq> [] \<Longrightarrow> hd s \<notin> {32, 9, 10, 13} \<Longrightarrow> skip_ws s = s"
  by (cases s) (auto simp: skip_ws_def)

lemma skip_ws_Cons: "c \<notin> {32, 9, 10, 13} \<Longrightarrow> skip_ws (c # s) = c # s"
  by (auto simp: skip_ws_def)

lemma float_lit_head:
  assumes "float_lit f"
  shows "f \<noteq> []" "is_digit (hd f) \<or> hd f = 45"
proof -
  from assms obtain i fr e where m: "match_number f = Some (i, fr, e, [])"
    by (auto simp: float_lit_def split: option.splits)
  from match_number_parts[OF m] show "f \<noteq> []" "is_digit (hd f) \<or> hd f = 45"
    by (cases i; auto)+
qed

lemma int_repr_head: "int_repr i \<noteq> []" "is_digit (hd (int_repr i)) \<or> hd (int_repr i) = 45"
proof -
  from match_integer_parts[OF int_repr_match[of i]]
  show "int_repr i \<noteq> []" "is_digit (hd (int_repr i)) \<or> hd (int_repr i) = 45" by auto
qed

lemma json_dumps_head:
  assumes "plain_json v"
  shows "json_dumps v \<noteq> []"
    and "hd (json_dumps v) \<notin> {32, 9, 10, 13, 44, 93, 125}"
proof -
  have "json_dumps v \<noteq> [] \<and> hd (json_dumps v) \<notin> {32, 9, 10, 13, 44, 93, 125}"
  proof (cases v)
    case (PInt i)
    then show ?thesis using int_repr_head[of i] by (auto simp: is_digit_def)
  next
    case (PFloat f)
    then show ?thesis using assms float_lit_head[of f] by (auto simp: is_digit_def)
  next
    case (PStr s)
    then show ?thesis by (simp add: encode_basestring_ascii_def)
  qed simp_all
  then show "json_dumps v \<noteq> []" "hd (json_dumps v) \<notin> {32, 9, 10, 13, 44, 93, 125}"
    by simp_all
qed

lemma join_set: "set (join sep xs) \<subseteq> set sep \<union> \<Union> (set ` set xs)"
  by (induction sep xs rule: join.induct) auto

lemma json_dumps_ascii: "plain_json v \<Longrightarrow> \<forall>c \<in> set (json_dumps v). c < 128"
proof (induction v rule: json_dumps.induct)
  case 1
  then show ?case by simp
next
  case (2 b)
  then show ?case by simp
next
  case (3 i)
  then show ?case using int_repr_ascii by simp
next
  case (4 f)
  then show ?case using float_lit_ascii by simp
next
  case (5 s)
  then have "\<forall>c \<in> set s. c < 128" by (auto simp: list_all_iff plain_char_def)
  then show ?case using 5 by (simp add: encode_plain)
next
  case (6 xs)
  have "\<forall>x \<in> set xs. \<forall>c \<in> set (json_dumps x). c < 128"
    using 6 by (auto simp: list_all_iff)
  then have "\<forall>c \<in> set (join [44] (map json_dumps xs)). c < 128"
    using join_set[of "[44]" "map json_dumps xs"] by fastforce
  then show ?case by simp
next
  case (7 kvs)
  have "\<forall>kv \<in> set kvs. \<forall>c \<in> set (encode_basestring_ascii (fst kv) @ [58] @ json_dumps (snd kv)). c < 128"
  proof
    fix kv assume kv: "kv \<in> set kvs"
    then have k: "list_all plain_char (fst kv)" and v: "plain_json (snd kv)"
      using 7(2) by (auto simp: list_all_iff)
    have "\<forall>c \<in> set (fst kv). c < 128" using k by (auto simp: list_all_iff plain_char_def)
    then show "\<forall>c \<in> set (encode_basestring_ascii (fst kv) @ [58] @ json_dumps (snd kv)). c < 128"
      using 7(1)[OF kv v] by (auto simp: encode_plain[OF k])
  qed
  then have "\<forall>c \<in> set (join [44] (map (\<lambda>kv. encode_basestring_ascii (fst kv) @ [58] @ json_dumps (snd kv)) kvs)). c < 128"
    using join_set[of "[44]" "map (\<lambda>kv. encode_basestring_ascii (fst kv) @ [58] @ json_dumps (snd kv)) kvs"]
    by fastforce
  then show ?case by simp
qed

lemma parse_array_items:
  assumes IH: "\<And>x f rest. x \<in> set xs \<Longrightarrow>
                 rest = [] \<or> hd rest = 44 \<or> hd rest = 93 \<or> hd rest = 125 \<Longrightarrow>
                 length (json_dumps x) < f \<Longrightarrow>
                 scan_once f (json_dumps x @ rest) = Some (x, rest)"
    and plain: "\<forall>x \<in> set xs. plain_json x"
    and ne: "xs \<noteq> []"
    and fuel: "length (join [44] (map json_dumps xs)) + 1 < n"
  shows "parse_array n (join [44] (map json_dumps xs) @ 93 # rest) acc = Some (PList (acc @ xs), rest)"
  using assms
proof (induction xs arbitrary: n acc)
  case Nil
  then show ?case by simp
next
  case (Cons x xs)
  obtain m where n: "n = Suc m" using Cons.prems(4) by (cases n) auto
  have px: "plain_json x" using Cons.prems(2) by simp
  show ?case
  proof (cases xs)
    case Nil
    have lx: "length (json_dumps x) < m" using Cons.prems(4) n Nil by simp
    have s: "scan_once m (json_dumps x @ 93 # rest) = Some (x, 93 # rest)"
      by (rule Cons.prems(1)) (use lx in simp_all)
    show ?thesis
      unfolding n Nil by (simp add: s skip_ws_Cons)
  next
    case (Cons y ys)
    define tail where "tail = join [44] (map json_dumps (y # ys)) @ 93 # rest"
    have j: "join [44] (map json_dumps (x # xs)) @ 93 # rest = json_dumps x @ 44 # tail"
      by (simp add: Cons tail_def)
    have lx: "length (json_dumps x) < m" using Cons.prems(4) n Cons by simp
    have s: "scan_once m (json_dumps x @ 44 # tail) = Some (x, 44 # tail)"
      by (rule Cons.prems(1)) (use lx in simp_all)
    have py: "plain_json y" using Cons.prems(2) Cons by simp
    have "tail \<noteq> []" "hd tail \<notin> {32, 9, 10, 13}"
      using json_dumps_head[OF py] by (cases ys; auto simp: tail_def)+
    then have sk: "skip_ws tail = tail" by (rule skip_ws_id)
    have "json_dumps x \<noteq> []" using json_dumps_head(1)[OF px] .
    then have "0 < length (json_dumps x)" by simp
    then have fuel': "length (join [44] (map json_dumps xs)) + 1 < m"
      using Cons.prems(4) n Cons by simp
    have IH': "parse_array m (join [44] (map json_dumps xs) @ 93 # rest) (acc @ [x])
               = Some (PList ((acc @ [x]) @ xs), rest)"
      by (rule Cons.IH) (use Cons.prems(1,2) Cons fuel' in auto)
    have t: "tail = join [44] (map json_dumps xs) @ 93 # rest" by (simp add: tail_def Cons)
    have "parse_array (Suc m) (json_dumps x @ 44 # tail) acc = parse_array m tail (acc @ [x])"
      by (simp add: s skip_ws_Cons sk)
    then show ?thesis
      unfolding j n using IH' by (simp add: t)
  qed
qed

lemma dict_set_new: "k \<notin> fst ` set acc \<Longrightarrow> dict_set acc k v = acc @ [(k, v)]"
  by (simp add: dict_set_def)

lemma parse_object_items:
  assumes IH: "\<And>kv f rest. kv \<in> set kvs \<Longrightarrow>
                 rest = [] \<or> hd rest = 44 \<or> hd rest = 93 \<or> hd rest = 125 \<Longrightarrow>
                 length (json_dumps (snd kv)) < f \<Longrightarrow>
                 scan_once f (json_dumps (snd kv) @ rest) = Some (snd kv, rest)"
    and plain: "\<forall>kv \<in> set kvs. list_all plain_char (fst kv) \<and> plain_json (snd kv)"
    and dist: "distinct (map fst kvs)" "fst ` set kvs \<inter> fst ` set acc = {}"
    and ne: "kvs \<noteq> []"
    and fuel: "length (join [44] (map (\<lambda>kv. encode_basestring_ascii (fst kv) @ [58] @ json_dumps (snd kv)) kvs)) + 1 < n"
  shows "parse_object n
           (join [44] (map (\<lambda>kv. encode_basestring_ascii (fst kv) @ [58] @ json_dumps (snd kv)) kvs)
            @ 125 # rest) acc
         = Some (PDict (acc @ kvs), rest)"
  using assms
proof (induction kvs arbitrary: n acc)
  case Nil
  then show ?case by simp
next
  case (Cons kv kvs)
  obtain k v where kv: "kv = (k, v)" by (cases kv) auto
  obtain m where n: "n = Suc m" using Cons.prems(6) by (cases n) auto
  have pk: "list_all plain_char k" and pv: "plain_json v" using Cons.prems(2) kv by simp_all
  have knew: "k \<notin> fst ` set acc" using Cons.prems(4) kv by auto
  have key: "scanstring (k @ 34 # r) = Some (k, r)" for r
    using pk by (rule scanstring_plain)
  have vne: "json_dumps v \<noteq> []" and vhd: "hd (json_dumps v) \<notin> {32, 9, 10, 13}"
    using json_dumps_head[OF pv] by auto
  have skv: "skip_ws (json_dumps v @ r) = json_dumps v @ r" for r
    by (rule skip_ws_id) (use vne vhd in auto)
  show ?case
  proof (cases kvs)
    case Nil
    have lv: "length (json_dumps v) < m"
      using Cons.prems(6) n Nil kv by (simp add: encode_plain[OF pk])
    have "scan_once m (json_dumps (snd kv) @ 125 # rest) = Some (snd kv, 125 # rest)"
      by (rule Cons.prems(1)) (use lv kv in simp_all)
    then have s: "scan_once m (json_dumps v @ 125 # rest) = Some (v, 125 # rest)"
      by (simp add: kv)
    show ?thesis
      unfolding n Nil kv
      by (simp add: encode_plain[OF pk] key skip_ws_Cons skv s dict_set_new[OF knew])
  next
    case c: (Cons kv' kvs')
    define entry where "entry = (\<lambda>kv. encode_basestring_ascii (fst kv) @ [58] @ json_dumps (snd kv))"
    define tail where "tail = join [44] (map entry (kv' # kvs')) @ 125 # rest"
    have j: "join [44] (map entry (kv # kvs)) @ 125 # rest
             = 34 # k @ 34 # 58 # json_dumps v @ 44 # tail"
      by (simp add: c tail_def entry_def kv encode_plain[OF pk])
    have "length (join [44] (map entry (kv # kvs)))
          = length k + 3 + length (json_dumps v) + 1 + length (join [44] (map entry kvs))"
      by (simp add: c entry_def kv encode_plain[OF pk])
    then have lv: "length (json_dumps v) < m"
      and fuel': "length (join [44] (map entry kvs)) + 1 < m"
      using Cons.prems(6) n unfolding entry_def by simp_all
    have "scan_once m (json_dumps (snd kv) @ 44 # tail) = Some (snd kv, 44 # tail)"
      by (rule Cons.prems(1)) (use lv kv in simp_all)
    then have s: "scan_once m (json_dumps v @ 44 # tail) = Some (v, 44 # tail)"
      by (simp add: kv)
    have "tail \<noteq> []" "hd tail \<notin> {32, 9, 10, 13}"
      by (cases kvs'; simp add: tail_def entry_def encode_basestring_ascii_def)+
    then have sk: "skip_ws tail = tail" by (rule skip_ws_id)
    have d': "distinct (map fst kvs)" "fst ` set kvs \<inter> fst ` set (acc @ [(k, v)]) = {}"
      using Cons.prems(3,4) kv by auto
    have IH': "parse_object m (join [44] (map entry kvs) @ 125 # rest) (acc @ [(k, v)])
               = Some (PDict ((acc @ [(k, v)]) @ kvs), rest)"
      unfolding entry_def
      by (rule Cons.IH) (use Cons.prems(1,2) d' c fuel' in \<open>auto simp: entry_def\<close>)
    have t: "tail = join [44] (map entry kvs) @ 125 # rest" by (simp add: tail_def c)
    have "parse_object (Suc m) (34 # k @ 34 # 58 # json_dumps v @ 44 # tail) acc
          = parse_object m tail (acc @ [(k, v)])"
      by (simp add: key skip_ws_Cons skv s sk dict_set_new[OF knew])
    then show ?thesis
      unfolding entry_def[symmetric] j n t using IH' by (simp add: kv)
  qed
qed

lemma scan_once_dumps:
  assumes "plain_json v"
    and "rest = [] \<or> hd rest = 44 \<or> hd rest = 93 \<or> hd rest = 125"
    and "length (json_dumps v) < f"
  shows "scan_once f (json_dumps v @ rest) = Some (v, rest)"
  using assms
proof (induction v arbitrary: f rest rule: json_dumps.induct)
  case 1
  obtain n where f: "f = Suc n" using 1(3) by (cases f) auto
  show ?case unfolding f by simp
next
  case (2 b)
  obtain n where f: "f = Suc n" using 2(3) by (cases f) auto
  show ?case unfolding f by (cases b) simp_all
next
  case (3 i)
  obtain n where f: "f = Suc n" using 3(3) by (cases f) auto
  have "match_integer (int_repr i @ rest) = Some (int_repr i, rest)"
    using match_integer_append[of rest "int_repr i"] int_repr_match[of i] 3(2)
    by (auto simp: is_digit_def)
  then have "scan_once (Suc n) (int_repr i @ rest) = scan_number (int_repr i @ rest)"
    by (rule scan_once_number)
  then show ?case unfolding f using scan_number_int[OF 3(2)] by simp
next
  case (4 fl)
  obtain n where f: "f = Suc n" using 4(3) by (cases f) auto
  have lit: "float_lit fl" using 4(1) by simp
  obtain m r where "match_integer fl = Some (m, r)" using float_lit_integer[OF lit] by blast
  then have "match_integer (fl @ rest) = Some (m, r @ rest)"
    using match_integer_append[of rest fl] 4(2) by (auto simp: is_digit_def)
  then have "scan_once (Suc n) (fl @ rest) = scan_number (fl @ rest)"
    by (rule scan_once_number)
  then show ?case unfolding f using scan_number_float[OF lit 4(2)] by simp
next
  case (5 s)
  obtain n where f: "f = Suc n" using 5(3) by (cases f) auto
  have p: "list_all plain_char s" using 5(1) by simp
  show ?case unfolding f by (simp add: encode_plain[OF p] scanstring_plain[OF p])
next
  case (6 xs)
  obtain n where f: "f = Suc n" using 6(4) by (cases f) auto
  show ?case
  proof (cases xs)
    case Nil
    then show ?thesis unfolding f by (simp add: skip_ws_Cons)
  next
    case (Cons y ys)
    define items where "items = join [44] (map json_dumps xs)"
    have py: "plain_json y" using 6(2) Cons by simp
    have ine: "items \<noteq> []" and ihd: "hd items \<notin> {32, 9, 10, 13, 44, 93, 125}"
      using json_dumps_head[OF py] by (cases ys; auto simp: items_def Cons)+
    have sk: "skip_ws (items @ 93 # rest) = items @ 93 # rest"
      by (rule skip_ws_id) (use ine ihd in auto)
    have t1: "take 1 (items @ 93 # rest) \<noteq> [93]"
      using ine ihd by (cases items) auto
    have fuel: "length items + 1 < n" using 6(4) f by (simp add: items_def)
    have pa: "parse_array n (items @ 93 # rest) [] = Some (PList ([] @ xs), rest)"
      unfolding items_def
      by (rule parse_array_items) (use 6 Cons fuel in \<open>auto simp: items_def list_all_iff\<close>)
    show ?thesis
      unfolding f using pa sk t1 by (simp add: items_def)
  qed
next
  case (7 kvs)
  obtain n where f: "f = Suc n" using 7(4) by (cases f) auto
  show ?case
  proof (cases kvs)
    case Nil
    then show ?thesis unfolding f by (simp add: skip_ws_Cons)
  next
    case (Cons kv kvs')
    define items where
      "items = join [44] (map (\<lambda>kv. encode_basestring_ascii (fst kv) @ [58] @ json_dumps (snd kv)) kvs)"
    have ine: "items \<noteq> []" and ihd: "hd items = 34"
      by (cases kvs'; simp add: items_def Cons encode_basestring_ascii_def)+
    have sk: "skip_ws (items @ 125 # rest) = items @ 125 # rest"
      by (rule skip_ws_id) (use ine ihd in auto)
    have t1: "take 1 (items @ 125 # rest) \<noteq> [125]"
      using ine ihd by (cases items) auto
    have fuel: "length items + 1 < n" using 7(4) f by (simp add: items_def)
    have po: "parse_object n (items @ 125 # rest) [] = Some (PDict ([] @ kvs), rest)"
      unfolding items_def
    proof (rule parse_object_items)
      fix kv :: "pystr \<times> pyval" and f' :: nat and rest' :: pystr
      assume a: "kv \<in> set kvs" "rest' = [] \<or> hd rest' = 44 \<or> hd rest' = 93 \<or> hd rest' = 125"
        "length (json_dumps (snd kv)) < f'"
      have "plain_json (snd kv)" using 7(2) a(1) by (simp add: list_all_iff)
      then show "scan_once f' (json_dumps (snd kv) @ rest') = Some (snd kv, rest')"
        using a by (intro 7(1))
    next
      show "\<forall>kv \<in> set kvs. list_all plain_char (fst kv) \<and> plain_json (snd kv)"
        using 7(2) by (simp add: list_all_iff)
      show "distinct (map fst kvs)" using 7(2) by simp
      show "fst ` set kvs \<inter> fst ` set [] = {}" by simp
      show "kvs \<noteq> []" using Cons by simp
      show "length (join [44] (map (\<lambda>kv. encode_basestring_ascii (fst kv) @ [58] @ json_dumps (snd kv)) kvs)) + 1 < n"
        using fuel by (simp add: items_def)
    qed
    show ?thesis
      unfolding f using po sk t1 by (simp add: items_def)
  qed
qed

lemma json_loads_dumps: "plain_json v \<Longrightarrow> json_loads (json_dumps v) = Some v"
proof -
  assume p: "plain_json v"
  have sk: "skip_ws (json_dumps v) = json_dumps v"
    by (rule skip_ws_id) (use json_dumps_head[OF p] in auto)
  have "scan_once (Suc (length (json_dumps v))) (json_dumps v @ []) = Some (v, [])"
    by (rule scan_once_dumps) (use p in simp_all)
  moreover have "skip_ws [] = []" by (simp add: skip_ws_def)
  ultimately show ?thesis unfolding json_loads_def sk by simp
qed

subsection \<open>The call bound of the loader never cuts a parse short\<close>

text \<open>
  The first argument of \<open>scan_once\<close>, \<open>parse_array\<close> and \<open>parse_object\<close> bounds the
  number of nested calls, which makes the three functions total. A successful call
  consumes at least one character, and the characters it consumes are as many calls as it
  ever needs: the outcome is the same for every larger bound. Hence \<open>json_loads\<close>, which
  starts with one more than the length of the text, returns a value exactly when some
  bound yields that value (\<open>json_loads_fuel\<close>), and \<open>None\<close> from the model always stands
  for a text \<open>json.loads\<close> rejects, never for an exhausted bound.
\<close>

lemma skip_ws_length: "length (skip_ws s) \<le> length s"
  by (simp add: skip_ws_def length_dropWhile_le)

lemma string_cons_Some:
  "string_cons c x = Some (str, t) \<Longrightarrow> \<exists>str'. x = Some (str', t)"
  by (cases x) (auto simp: string_cons_def)

lemma scanstring_unicode_escape:
  assumes "scanstring (92 # 117 # s1) = Some (str, t)"
  shows "\<exists>Y str'. scanstring Y = Some (str', t) \<and> length Y \<le> length s1"
proof -
  obtain h1 h2 h3 h4 s2 where s1: "s1 = h1 # h2 # h3 # h4 # s2"
    using assms by (subst (asm) scanstring.simps) (simp del: scanstring.simps split: list.splits)
  obtain u where u: "hex4 h1 h2 h3 h4 = Some u"
    using assms unfolding s1 by (subst (asm) scanstring.simps) (simp del: scanstring.simps split: option.splits)
  show ?thesis
  proof (cases "55296 \<le> u \<and> u \<le> 56319")
    case False
    then have nc: "(55296 \<le> u \<and> u \<le> 56319) = False" by simp
    have "string_cons u (scanstring s2) = Some (str, t)"
      using assms unfolding s1 by (subst (asm) scanstring.simps) (simp del: scanstring.simps add: u nc)
    then obtain str' where "scanstring s2 = Some (str', t)" using string_cons_Some by blast
    then show ?thesis unfolding s1 by (intro exI[of _ s2] exI[of _ str']) simp
  next
    case True
    have r: "(case s2 of
                b # v # g1 # g2 # g3 # g4 # s3 \<Rightarrow>
                  if b = 92 \<and> v = 117 then
                    (case hex4 g1 g2 g3 g4 of
                       None \<Rightarrow> None
                     | Some u2 \<Rightarrow>
                         if 56320 \<le> u2 \<and> u2 \<le> 57343
                         then string_cons (65536 + (u - 55296) * 1024 + (u2 - 56320)) (scanstring s3)
                         else string_cons u (scanstring s2))
                  else string_cons u (scanstring s2)
              | _ \<Rightarrow> string_cons u (scanstring s2)) = Some (str, t)"
      using assms True unfolding s1 by (subst (asm) scanstring.simps) (simp del: scanstring.simps add: u)
    show ?thesis
    proof (cases "\<exists>b v g1 g2 g3 g4 s3. s2 = b # v # g1 # g2 # g3 # g4 # s3")
      case False
      then have "string_cons u (scanstring s2) = Some (str, t)"
        using r by (auto simp del: scanstring.simps split: list.splits)
      then obtain str' where "scanstring s2 = Some (str', t)" using string_cons_Some by blast
      then show ?thesis unfolding s1 by (intro exI[of _ s2] exI[of _ str']) simp
    next
      case True
      then obtain b v g1 g2 g3 g4 s3 where s2: "s2 = b # v # g1 # g2 # g3 # g4 # s3" by blast
      from r have "string_cons u (scanstring s2) = Some (str, t)
                   \<or> (\<exists>cp. string_cons cp (scanstring s3) = Some (str, t))"
        unfolding s2 by (auto simp del: scanstring.simps split: if_splits option.splits)
      then show ?thesis
      proof
        assume "string_cons u (scanstring s2) = Some (str, t)"
        then obtain str' where "scanstring s2 = Some (str', t)" using string_cons_Some by blast
        then show ?thesis unfolding s1 by (intro exI[of _ s2] exI[of _ str']) simp
      next
        assume "\<exists>cp. string_cons cp (scanstring s3) = Some (str, t)"
        then obtain str' where "scanstring s3 = Some (str', t)" using string_cons_Some by blast
        then show ?thesis unfolding s1 s2 by (intro exI[of _ s3] exI[of _ str']) simp
      qed
    qed
  qed
qed

lemma scanstring_step:
  assumes "scanstring (c # s) = Some (str, t)"
  shows "(c = 34 \<and> t = s) \<or> (\<exists>Y str'. scanstring Y = Some (str', t) \<and> length Y \<le> length s)"
proof (cases "c = 34")
  case True
  then show ?thesis using assms by (subst (asm) scanstring.simps) (simp del: scanstring.simps)
next
  case c34: False
  show ?thesis
  proof (cases "c = 92")
    case False
    then have "string_cons c (scanstring s) = Some (str, t)"
      using assms c34 by (subst (asm) scanstring.simps) (simp del: scanstring.simps split: if_splits)
    then obtain str' where "scanstring s = Some (str', t)" using string_cons_Some by blast
    then show ?thesis by (intro disjI2 exI[of _ s] exI[of _ str']) simp
  next
    case True
    then obtain e s1 where s: "s = e # s1"
      using assms by (subst (asm) scanstring.simps) (simp del: scanstring.simps split: list.splits)
    show ?thesis
    proof (cases "e = 117")
      case True
      from scanstring_unicode_escape[of s1 str t] assms \<open>c = 92\<close> True s
      obtain Y str' where "scanstring Y = Some (str', t)" "length Y \<le> length s1" by auto
      then show ?thesis unfolding s by (intro disjI2 exI[of _ Y] exI[of _ str']) simp
    next
      case False
      then obtain ch where "string_cons ch (scanstring s1) = Some (str, t)"
        using assms \<open>c = 92\<close> unfolding s
        by (subst (asm) scanstring.simps) (simp del: scanstring.simps split: option.splits)
      then obtain str' where "scanstring s1 = Some (str', t)" using string_cons_Some by blast
      then show ?thesis unfolding s by (intro disjI2 exI[of _ s1] exI[of _ str']) simp
    qed
  qed
qed

lemma scanstring_shorter: "scanstring s = Some (str, t) \<Longrightarrow> length t < length s"
proof (induction "length s" arbitrary: s str t rule: less_induct)
  case less
  obtain c s' where s: "s = c # s'" using less.prems by (cases s) auto
  have "(c = 34 \<and> t = s') \<or> (\<exists>Y str'. scanstring Y = Some (str', t) \<and> length Y \<le> length s')"
    using scanstring_step[of c s' str t] less.prems s by simp
  then show ?case
  proof (elim disjE exE conjE)
    assume "c = 34" "t = s'"
    then show ?thesis using s by simp
  next
    fix Y str'
    assume Y: "scanstring Y = Some (str', t)" "length Y \<le> length s'"
    then have "length Y < length s" using s by simp
    from less.hyps[OF this Y(1)] Y(2) s show ?thesis by simp
  qed
qed

lemma scan_number_shorter: "scan_number s = Some (v, r) \<Longrightarrow> length r < length s"
proof -
  assume a: "scan_number s = Some (v, r)"
  then obtain i f e where m: "match_number s = Some (i, f, e, r)"
    unfolding scan_number_def by (auto split: option.splits if_splits)
  from match_number_parts(1)[OF m] match_number_parts(3)[OF m] show ?thesis
    by (cases i) auto
qed

lemma drop_shorter: "0 < k \<Longrightarrow> s \<noteq> [] \<Longrightarrow> length (drop k s) < length s"
  by simp
lemma scan_once_atom_shorter:
  assumes "c \<noteq> 34" "c \<noteq> 123" "c \<noteq> 91" "scan_once (Suc n) (c # t) = Some (v, r)"
  shows "length r < length (c # t)"
proof -
  have a: "(if take 4 (c # t) = S ''null'' then Some (PNone, drop 4 (c # t))
          else if take 4 (c # t) = S ''true'' then Some (PBool True, drop 4 (c # t))
          else if take 5 (c # t) = S ''false'' then Some (PBool False, drop 5 (c # t))
          else if take 3 (c # t) = S ''NaN'' then Some (PFloat (S ''NaN''), drop 3 (c # t))
          else if take 8 (c # t) = S ''Infinity'' then Some (PFloat (S ''Infinity''), drop 8 (c # t))
          else if take 9 (c # t) = S ''-Infinity'' then Some (PFloat (S ''-Infinity''), drop 9 (c # t))
          else scan_number (c # t)) = Some (v, r)"
    using assms unfolding scan_once.simps list.case by (simp only: if_False)
  have d: "r = drop k (c # t) \<Longrightarrow> 0 < k \<Longrightarrow> length r < length (c # t)" for k
    using drop_shorter[of k "c # t"] by simp
  have n: "scan_number (c # t) = Some (v, r) \<Longrightarrow> length r < length (c # t)"
    by (rule scan_number_shorter)
  show ?thesis
  proof (cases "take 4 (c # t) = S ''null''")
    case True then show ?thesis using a d[of 4] by (simp only: if_True option.inject prod.inject) simp
  next
    case f1: False
    show ?thesis
    proof (cases "take 4 (c # t) = S ''true''")
      case True then show ?thesis using a f1 d[of 4] by (simp only: if_True if_False option.inject prod.inject) simp
    next
      case f2: False
      show ?thesis
      proof (cases "take 5 (c # t) = S ''false''")
        case True then show ?thesis using a f1 f2 d[of 5] by (simp only: if_True if_False option.inject prod.inject) simp
      next
        case f3: False
        show ?thesis
        proof (cases "take 3 (c # t) = S ''NaN''")
          case True then show ?thesis using a f1 f2 f3 d[of 3] by (simp only: if_True if_False option.inject prod.inject) simp
        next
          case f4: False
          show ?thesis
          proof (cases "take 8 (c # t) = S ''Infinity''")
            case True then show ?thesis using a f1 f2 f3 f4 d[of 8] by (simp only: if_True if_False option.inject prod.inject) simp
          next
            case f5: False
            show ?thesis
            proof (cases "take 9 (c # t) = S ''-Infinity''")
              case True then show ?thesis using a f1 f2 f3 f4 f5 d[of 9] by (simp only: if_True if_False option.inject prod.inject) simp
            next
              case f6: False
              then show ?thesis using a f1 f2 f3 f4 f5 n by (simp only: if_True if_False)
            qed
          qed
        qed
      qed
    qed
  qed
qed

lemma scan_once_SucE:
  assumes "scan_once (Suc n) s = Some (v, r)"
  obtains (string) t str where "s = 34 # t" "scanstring t = Some (str, r)" "v = PStr str"
  | (empty_object) t where "s = 123 # t" "take 1 (skip_ws t) = [125]"
      "v = PDict []" "r = drop 1 (skip_ws t)"
  | (object) t where "s = 123 # t" "take 1 (skip_ws t) \<noteq> [125]"
      "parse_object n (skip_ws t) [] = Some (v, r)"
  | (empty_array) t where "s = 91 # t" "take 1 (skip_ws t) = [93]"
      "v = PList []" "r = drop 1 (skip_ws t)"
  | (array) t where "s = 91 # t" "take 1 (skip_ws t) \<noteq> [93]"
      "parse_array n (skip_ws t) [] = Some (v, r)"
  | (atom) c t where "s = c # t" "c \<noteq> 34" "c \<noteq> 123" "c \<noteq> 91"
      "length r < length s" "\<And>m. scan_once (Suc m) s = Some (v, r)"
proof -
  obtain c t where s: "s = c # t" using assms by (cases s) simp_all
  consider "c = 34" | "c = 123" | "c = 91" | "c \<noteq> 34" "c \<noteq> 123" "c \<noteq> 91" by blast
  then show thesis
  proof cases
    case 1
    then obtain str where "scanstring t = Some (str, r)" "v = PStr str"
      using assms unfolding s
      by (auto simp del: scanstring.simps split: option.splits)
    then show thesis using string s 1 by blast
  next
    case 2
    show thesis
    proof (cases "take 1 (skip_ws t) = [125]")
      case True
      then have "v = PDict []" "r = drop 1 (skip_ws t)" using assms 2 unfolding s by simp_all
      then show thesis using empty_object s 2 True by blast
    next
      case False
      then have "parse_object n (skip_ws t) [] = Some (v, r)" using assms 2 unfolding s by simp
      then show thesis using object s 2 False by blast
    qed
  next
    case 3
    show thesis
    proof (cases "take 1 (skip_ws t) = [93]")
      case True
      then have "v = PList []" "r = drop 1 (skip_ws t)" using assms 3 unfolding s by simp_all
      then show thesis using empty_array s 3 True by blast
    next
      case False
      then have "parse_array n (skip_ws t) [] = Some (v, r)" using assms 3 unfolding s by simp
      then show thesis using array s 3 False by blast
    qed
  next
    case 4
    have indep: "scan_once (Suc m) (c # t) = scan_once (Suc n) (c # t)" for m
      using 4 by simp
    have "length r < length (c # t)"
      using scan_once_atom_shorter[OF 4] assms unfolding s by blast
    moreover have "scan_once (Suc m) s = Some (v, r)" for m
      using indep[of m] assms unfolding s by (simp only:)
    ultimately show thesis using atom[of c t] s 4 by blast
  qed
qed

lemma parse_array_SucE:
  assumes "parse_array (Suc n) s acc = Some (v, r)"
  obtains (last) v1 r1 where "scan_once n s = Some (v1, r1)" "skip_ws r1 = 93 # r"
      "v = PList (acc @ [v1])"
  | (more) v1 r1 t where "scan_once n s = Some (v1, r1)" "skip_ws r1 = 44 # t"
      "parse_array n (skip_ws t) (acc @ [v1]) = Some (v, r)"
proof -
  obtain v1 r1 where a: "scan_once n s = Some (v1, r1)"
    using assms by (cases "scan_once n s") auto
  obtain c t where b: "skip_ws r1 = c # t"
    using assms a by (cases "skip_ws r1") auto
  have c: "(if c = 93 then Some (PList (acc @ [v1]), t)
            else if c = 44 then parse_array n (skip_ws t) (acc @ [v1])
            else None) = Some (v, r)"
    using assms a b by simp
  show thesis
  proof (cases "c = 93")
    case True
    then show thesis using c last[of v1 r1] a b by simp
  next
    case False
    then have "c = 44" using c by (simp split: if_splits)
    then show thesis using c more[of v1 r1 t] a b by simp
  qed
qed

lemma parse_object_SucE:
  assumes "parse_object (Suc n) s acc = Some (v, r)"
  obtains (last) q key r1 r2 v1 r3 where "s = 34 # q" "scanstring q = Some (key, r1)"
      "skip_ws r1 = 58 # r2" "scan_once n (skip_ws r2) = Some (v1, r3)"
      "skip_ws r3 = 125 # r" "v = PDict (dict_set acc key v1)"
  | (more) q key r1 r2 v1 r3 t where "s = 34 # q" "scanstring q = Some (key, r1)"
      "skip_ws r1 = 58 # r2" "scan_once n (skip_ws r2) = Some (v1, r3)"
      "skip_ws r3 = 44 # t" "parse_object n (skip_ws t) (dict_set acc key v1) = Some (v, r)"
proof -
  obtain q where s: "s = 34 # q"
    using assms by (cases s) (auto simp del: scanstring.simps split: if_splits)
  obtain key r1 where k: "scanstring q = Some (key, r1)"
    using assms unfolding s by (cases "scanstring q") (auto simp del: scanstring.simps)
  obtain r2 where d: "skip_ws r1 = 58 # r2"
    using assms k unfolding s
    by (cases "skip_ws r1") (auto simp del: scanstring.simps split: if_splits)
  obtain v1 r3 where e: "scan_once n (skip_ws r2) = Some (v1, r3)"
    using assms k d unfolding s
    by (cases "scan_once n (skip_ws r2)") (auto simp del: scanstring.simps)
  obtain c t where b: "skip_ws r3 = c # t"
    using assms k d e unfolding s
    by (cases "skip_ws r3") (auto simp del: scanstring.simps)
  have c: "(if c = 125 then Some (PDict (dict_set acc key v1), t)
            else if c = 44 then parse_object n (skip_ws t) (dict_set acc key v1)
            else None) = Some (v, r)"
    using assms k d e b unfolding s by (simp del: scanstring.simps)
  show thesis
  proof (cases "c = 125")
    case True
    then show thesis using c last[of q key r1 r2 v1 r3] s k d e b by simp
  next
    case False
    then have "c = 44" using c by (simp split: if_splits)
    then show thesis using c more[of q key r1 r2 v1 r3 t] s k d e b by simp
  qed
qed

lemma fuel_Suc: "length r < length s \<Longrightarrow> length s - length r \<le> g \<Longrightarrow> \<exists>g'. g = Suc g'"
  by (cases g) simp_all

lemma scan_fuel:
  "(\<forall>s v r. scan_once f s = Some (v, r) \<longrightarrow>
      length r < length s \<and> (\<forall>g. length s - length r \<le> g \<longrightarrow> scan_once g s = Some (v, r)))
   \<and> (\<forall>s acc v r. parse_array f s acc = Some (v, r) \<longrightarrow>
      length r < length s
      \<and> (\<forall>g. length s - length r \<le> g \<longrightarrow> parse_array g s acc = Some (v, r)))
   \<and> (\<forall>s acc v r. parse_object f s acc = Some (v, r) \<longrightarrow>
      length r < length s
      \<and> (\<forall>g. length s - length r \<le> g \<longrightarrow> parse_object g s acc = Some (v, r)))"
proof (induction f)
  case 0
  show ?case by simp
next
  case (Suc n)
  have SO: "length r < length s" "\<And>g. length s - length r \<le> g \<Longrightarrow> scan_once g s = Some (v, r)"
    if "scan_once n s = Some (v, r)" for s v r
    using Suc that by blast+
  have PA: "length r < length s"
    "\<And>g. length s - length r \<le> g \<Longrightarrow> parse_array g s acc = Some (v, r)"
    if "parse_array n s acc = Some (v, r)" for s acc v r
    using Suc that by blast+
  have PO: "length r < length s"
    "\<And>g. length s - length r \<le> g \<Longrightarrow> parse_object g s acc = Some (v, r)"
    if "parse_object n s acc = Some (v, r)" for s acc v r
    using Suc that by blast+
  have so: "length r < length s \<and> (\<forall>g. length s - length r \<le> g \<longrightarrow> scan_once g s = Some (v, r))"
    if a: "scan_once (Suc n) s = Some (v, r)" for s v r
    using a
  proof (cases rule: scan_once_SucE)
    case (string t str)
    have l: "length r < length s" using scanstring_shorter[OF string(2)] string(1) by simp
    have "scan_once g s = Some (v, r)" if b: "length s - length r \<le> g" for g
    proof -
      obtain g' where "g = Suc g'" using fuel_Suc[OF l b] by blast
      then show ?thesis using string by (simp del: scanstring.simps)
    qed
    then show ?thesis using l by blast
  next
    case (empty_object t)
    have "skip_ws t \<noteq> []" using empty_object(2) by auto
    then have l: "length r < length s"
      using skip_ws_length[of t] empty_object(1,4) by (cases "skip_ws t") auto
    have "scan_once g s = Some (v, r)" if b: "length s - length r \<le> g" for g
    proof -
      obtain g' where "g = Suc g'" using fuel_Suc[OF l b] by blast
      then show ?thesis using empty_object by simp
    qed
    then show ?thesis using l by blast
  next
    case (object t)
    have l0: "length r < length (skip_ws t)" by (rule PO(1)[OF object(3)])
    then have l: "length r < length s" using skip_ws_length[of t] object(1) by simp
    have "scan_once g s = Some (v, r)" if b: "length s - length r \<le> g" for g
    proof -
      obtain g' where g: "g = Suc g'" using fuel_Suc[OF l b] by blast
      have "length (skip_ws t) - length r \<le> g'"
        using b g skip_ws_length[of t] object(1) l0 by simp
      then have "parse_object g' (skip_ws t) [] = Some (v, r)" by (rule PO(2)[OF object(3)])
      then show ?thesis using object(1,2) g by simp
    qed
    then show ?thesis using l by blast
  next
    case (empty_array t)
    have "skip_ws t \<noteq> []" using empty_array(2) by auto
    then have l: "length r < length s"
      using skip_ws_length[of t] empty_array(1,4) by (cases "skip_ws t") auto
    have "scan_once g s = Some (v, r)" if b: "length s - length r \<le> g" for g
    proof -
      obtain g' where "g = Suc g'" using fuel_Suc[OF l b] by blast
      then show ?thesis using empty_array by simp
    qed
    then show ?thesis using l by blast
  next
    case (array t)
    have l0: "length r < length (skip_ws t)" by (rule PA(1)[OF array(3)])
    then have l: "length r < length s" using skip_ws_length[of t] array(1) by simp
    have "scan_once g s = Some (v, r)" if b: "length s - length r \<le> g" for g
    proof -
      obtain g' where g: "g = Suc g'" using fuel_Suc[OF l b] by blast
      have "length (skip_ws t) - length r \<le> g'"
        using b g skip_ws_length[of t] array(1) l0 by simp
      then have "parse_array g' (skip_ws t) [] = Some (v, r)" by (rule PA(2)[OF array(3)])
      then show ?thesis using array(1,2) g by simp
    qed
    then show ?thesis using l by blast
  next
    case (atom c t)
    have "scan_once g s = Some (v, r)" if b: "length s - length r \<le> g" for g
    proof -
      obtain g' where g: "g = Suc g'" using fuel_Suc[OF atom(5) b] by blast
      show ?thesis unfolding g by (rule atom(6))
    qed
    then show ?thesis using atom(5) by blast
  qed
  have pa: "length r < length s
      \<and> (\<forall>g. length s - length r \<le> g \<longrightarrow> parse_array g s acc = Some (v, r))"
    if a: "parse_array (Suc n) s acc = Some (v, r)" for s acc v r
    using a
  proof (cases rule: parse_array_SucE)
    case (last v1 r1)
    have l1: "length r1 < length s" by (rule SO(1)[OF last(1)])
    have l2: "length r < length r1" using skip_ws_length[of r1] last(2) by simp
    have l: "length r < length s" using l1 l2 by simp
    have "parse_array g s acc = Some (v, r)" if b: "length s - length r \<le> g" for g
    proof -
      obtain g' where g: "g = Suc g'" using fuel_Suc[OF l b] by blast
      have "length s - length r1 \<le> g'" using b g l1 l2 by simp
      then have "scan_once g' s = Some (v1, r1)" by (rule SO(2)[OF last(1)])
      then show ?thesis using last(2,3) g by simp
    qed
    then show ?thesis using l by blast
  next
    case (more v1 r1 t)
    have l1: "length r1 < length s" by (rule SO(1)[OF more(1)])
    have l2: "length t < length r1" using skip_ws_length[of r1] more(2) by simp
    have l3: "length r < length (skip_ws t)" by (rule PA(1)[OF more(3)])
    have l4: "length (skip_ws t) \<le> length t" by (rule skip_ws_length)
    have l: "length r < length s" using l1 l2 l3 l4 by simp
    have "parse_array g s acc = Some (v, r)" if b: "length s - length r \<le> g" for g
    proof -
      obtain g' where g: "g = Suc g'" using fuel_Suc[OF l b] by blast
      have "length s - length r1 \<le> g'" using b g l1 l2 l3 l4 by simp
      then have 1: "scan_once g' s = Some (v1, r1)" by (rule SO(2)[OF more(1)])
      have "length (skip_ws t) - length r \<le> g'" using b g l1 l2 l3 l4 by simp
      then have 2: "parse_array g' (skip_ws t) (acc @ [v1]) = Some (v, r)"
        by (rule PA(2)[OF more(3)])
      show ?thesis using 1 2 more(2) g by simp
    qed
    then show ?thesis using l by blast
  qed
  have po: "length r < length s
      \<and> (\<forall>g. length s - length r \<le> g \<longrightarrow> parse_object g s acc = Some (v, r))"
    if a: "parse_object (Suc n) s acc = Some (v, r)" for s acc v r
    using a
  proof (cases rule: parse_object_SucE)
    case (last q key r1 r2 v1 r3)
    have k1: "length r1 < length q" by (rule scanstring_shorter[OF last(2)])
    have k2: "length r2 < length r1" using skip_ws_length[of r1] last(3) by simp
    have k3: "length (skip_ws r2) \<le> length r2" by (rule skip_ws_length)
    have k4: "length r3 < length (skip_ws r2)" by (rule SO(1)[OF last(4)])
    have k5: "length r < length r3" using skip_ws_length[of r3] last(5) by simp
    have l: "length r < length s" using k1 k2 k3 k4 k5 last(1) by simp
    have "parse_object g s acc = Some (v, r)" if b: "length s - length r \<le> g" for g
    proof -
      obtain g' where g: "g = Suc g'" using fuel_Suc[OF l b] by blast
      have "length (skip_ws r2) - length r3 \<le> g'"
        using b g k1 k2 k3 k4 k5 last(1) by simp
      then have "scan_once g' (skip_ws r2) = Some (v1, r3)" by (rule SO(2)[OF last(4)])
      then show ?thesis using last(1,2,3,5,6) g by (simp del: scanstring.simps)
    qed
    then show ?thesis using l by blast
  next
    case (more q key r1 r2 v1 r3 t)
    have k1: "length r1 < length q" by (rule scanstring_shorter[OF more(2)])
    have k2: "length r2 < length r1" using skip_ws_length[of r1] more(3) by simp
    have k3: "length (skip_ws r2) \<le> length r2" by (rule skip_ws_length)
    have k4: "length r3 < length (skip_ws r2)" by (rule SO(1)[OF more(4)])
    have k5: "length t < length r3" using skip_ws_length[of r3] more(5) by simp
    have k6: "length (skip_ws t) \<le> length t" by (rule skip_ws_length)
    have k7: "length r < length (skip_ws t)" by (rule PO(1)[OF more(6)])
    have l: "length r < length s" using k1 k2 k3 k4 k5 k6 k7 more(1) by simp
    have "parse_object g s acc = Some (v, r)" if b: "length s - length r \<le> g" for g
    proof -
      obtain g' where g: "g = Suc g'" using fuel_Suc[OF l b] by blast
      have "length (skip_ws r2) - length r3 \<le> g'"
        using b g k1 k2 k3 k4 k5 k6 k7 more(1) by simp
      then have 1: "scan_once g' (skip_ws r2) = Some (v1, r3)" by (rule SO(2)[OF more(4)])
      have "length (skip_ws t) - length r \<le> g'"
        using b g k1 k2 k3 k4 k5 k6 k7 more(1) by simp
      then have 2: "parse_object g' (skip_ws t) (dict_set acc key v1) = Some (v, r)"
        by (rule PO(2)[OF more(6)])
      show ?thesis using 1 2 more(1,2,3,5) g by (simp del: scanstring.simps)
    qed
    then show ?thesis using l by blast
  qed
  show ?case using so pa po by blast
qed

lemma json_loads_fuel:
  "json_loads s = Some v \<longleftrightarrow> (\<exists>f r. scan_once f (skip_ws s) = Some (v, r) \<and> skip_ws r = [])"
proof
  assume "json_loads s = Some v"
  then obtain r where "scan_once (Suc (length s)) (skip_ws s) = Some (v, r)" "skip_ws r = []"
    unfolding json_loads_def by (auto split: option.splits if_splits)
  then show "\<exists>f r. scan_once f (skip_ws s) = Some (v, r) \<and> skip_ws r = []" by blast
next
  assume "\<exists>f r. scan_once f (skip_ws s) = Some (v, r) \<and> skip_ws r = []"
  then obtain f r where a: "scan_once f (skip_ws s) = Some (v, r)" and b: "skip_ws r = []" by blast
  have "length (skip_ws s) - length r \<le> Suc (length s)" using skip_ws_length[of s] by simp
  then have "scan_once (Suc (length s)) (skip_ws s) = Some (v, r)"
    using scan_fuel[of f] a by blast
  then show "json_loads s = Some v" unfolding json_loads_def using b by simp
qed

subsection \<open>Round trip of the codec\<close>

lemma codec_round_trip:
  assumes "plain_json v"
  shows "str_encode (json_dumps v) = Some (json_dumps v)"
    and "bytes_decode (b64encode (json_dumps v)) = Some (b64encode (json_dumps v))"
    and "decode_template (PStr (b64encode (json_dumps v))) = v"
proof -
  have asc: "\<forall>c \<in> set (json_dumps v). c < 128" using assms by (rule json_dumps_ascii)
  show "str_encode (json_dumps v) = Some (json_dumps v)" using asc by (rule str_encode_ascii)
  show "bytes_decode (b64encode (json_dumps v)) = Some (b64encode (json_dumps v))"
    using asc by (rule b64_round_trip(1))
  show "decode_template (PStr (b64encode (json_dumps v))) = v"
    using b64_round_trip(2)[OF asc] bytes_decode_ascii[OF asc] json_loads_dumps[OF assms]
    by (simp add: decode_template_def)
qed

subsection \<open>The claims about the codec\<close>

lemma generate_template_example:
  "generate_template
     [minutia_dict \<lparr>m_x = 0, m_y = 0, m_orientation = S ''0.0'', m_type = S ''bifurcation''\<rparr>]
     (S ''0.8'') (300, 256)
   = Some (S ''eyJ2ZXJzaW9uIjoiMS4wIiwicXVhbGl0eSI6MC44LCJpbWFnZV9zaGFwZSI6WzMwMCwyNTZdLCJtaW51dGlhZSI6W3sieCI6MCwieSI6MCwib3JpZW50YXRpb24iOjAuMCwidHlwZSI6ImJpZnVyY2F0aW9uIn1dLCJtaW51dGlhZV9jb3VudCI6MSwiY3JlYXRlZF9hdCI6bnVsbH0='')"
  by code_simp

lemma decode_example_quality:
  "decode_template (PStr (S ''eyJxdWFsaXR5Ijo3LjUsIm1pbnV0aWFlX2NvdW50IjoxMn0=''))
   = PDict [(S ''quality'', PFloat (S ''7.5'')), (S ''minutiae_count'', PInt 12)]"
  by code_simp

lemma float_lit_examples: "float_lit (S ''0.0'')" "float_lit (S ''0.8'')"
  by (simp_all add: float_lit_def match_number_def match_integer_def match_natural_def
      match_frac_def match_exp_def match_digits1_def is_digit_def)

lemma float_val_examples: "float_val (S ''7.5'') = Some (15 / 2)" "float_val (S ''0.8'') = Some (4 / 5)"
  by (simp_all add: float_val_def digits_val_def exp_val_def match_number_def match_integer_def
      match_natural_def match_frac_def match_exp_def match_digits1_def is_digit_def)

lemma float_lit_val: "float_lit f \<Longrightarrow> \<exists>r. float_val f = Some r"
  by (auto simp: float_lit_def float_val_def split: option.splits)

lemma plain_bifurcation: "list_all plain_char (S ''bifurcation'')"
  by (simp add: plain_char_def)

lemma plain_minutia_dict:
  "float_lit (m_orientation m) \<Longrightarrow> list_all plain_char (m_type m) \<Longrightarrow> plain_json (minutia_dict m)"
  by (simp add: minutia_dict_def plain_char_def)

lemma plain_template_data:
  assumes "float_lit quality"
    and "\<forall>m \<in> set M. float_lit (m_orientation m) \<and> list_all plain_char (m_type m)"
  shows "plain_json (template_data (map minutia_dict M) quality image_shape)"
proof -
  have "list_all plain_json (map minutia_dict M)"
    using assms(2) by (simp add: list_all_iff plain_minutia_dict)
  then show ?thesis
    using assms(1) by (simp add: template_data_def template_version_def plain_char_def)
qed

lemma generate_template_decodes:
  assumes "plain_json (template_data minutiae quality image_shape)"
  shows "generate_template minutiae quality image_shape
           = Some (b64encode (json_dumps (template_data minutiae quality image_shape)))"
    and "decode_template (PStr (b64encode (json_dumps (template_data minutiae quality image_shape))))
           = template_data minutiae quality image_shape"
  using codec_round_trip[OF assms] by (simp_all add: generate_template_def)

lemma template_data_fields:
  "py_get (template_data ms q shape) (S ''version'') PNone = Inr (PStr template_version)"
  "py_get (template_data ms q shape) (S ''quality'') dq = Inr (PFloat q)"
  "py_get (template_data ms q shape) (S ''image_shape'') PNone = Inr (PList [PInt (fst shape), PInt (snd shape)])"
  "py_get (template_data ms q shape) (S ''minutiae'') dm = Inr (PList ms)"
  "py_get (template_data ms q shape) (S ''minutiae_count'') dc = Inr (PInt (int (length ms)))"
  by (simp_all add: template_data_def)

text \<open>
  C1. For every template the processor can encode (a quality that is a float, minutiae
  with integer coordinates, a float orientation and a type written without escapes),
  decoding the string \<open>_generate_template\<close> returns yields the record that was encoded:
  the same version, the same quality, the same image shape (the tuple comes back as a list
  of the same two numbers), the same minutiae in the same order and the same
  \<open>minutiae_count\<close>.
\<close>

theorem template_round_trip:
  assumes "float_lit quality"
    and "\<forall>m \<in> set M. float_lit (m_orientation m) \<and> list_all plain_char (m_type m)"
  shows "\<exists>s d. generate_template (map minutia_dict M) quality image_shape = Some s
           \<and> decode_template (PStr s) = d
           \<and> d = template_data (map minutia_dict M) quality image_shape
           \<and> py_get d (S ''version'') PNone = Inr (PStr template_version)
           \<and> py_get d (S ''quality'') PNone = Inr (PFloat quality)
           \<and> py_get d (S ''image_shape'') PNone
               = Inr (PList [PInt (fst image_shape), PInt (snd image_shape)])
           \<and> py_get d (S ''minutiae'') PNone = Inr (PList (map minutia_dict M))
           \<and> py_get d (S ''minutiae_count'') PNone = Inr (PInt (int (length M)))"
  using generate_template_decodes[OF plain_template_data[OF assms], of image_shape]
    template_data_fields[of "map minutia_dict M" quality image_shape]
  by simp

theorem template_round_trip_witness:
  "generate_template
     [minutia_dict \<lparr>m_x = 0, m_y = 0, m_orientation = S ''0.0'', m_type = S ''bifurcation''\<rparr>]
     (S ''0.8'') (300, 256)
   = Some (S ''eyJ2ZXJzaW9uIjoiMS4wIiwicXVhbGl0eSI6MC44LCJpbWFnZV9zaGFwZSI6WzMwMCwyNTZdLCJtaW51dGlhZSI6W3sieCI6MCwieSI6MCwib3JpZW50YXRpb24iOjAuMCwidHlwZSI6ImJpZnVyY2F0aW9uIn1dLCJtaW51dGlhZV9jb3VudCI6MSwiY3JlYXRlZF9hdCI6bnVsbH0='')
   \<and> (\<exists>d. decode_template (PStr (S ''eyJ2ZXJzaW9uIjoiMS4wIiwicXVhbGl0eSI6MC44LCJpbWFnZV9zaGFwZSI6WzMwMCwyNTZdLCJtaW51dGlhZSI6W3sieCI6MCwieSI6MCwib3JpZW50YXRpb24iOjAuMCwidHlwZSI6ImJpZnVyY2F0aW9uIn1dLCJtaW51dGlhZV9jb3VudCI6MSwiY3JlYXRlZF9hdCI6bnVsbH0=''))
          = d
        \<and> py_get d (S ''version'') PNone = Inr (PStr (S ''1.0''))
        \<and> py_get d (S ''quality'') PNone = Inr (PFloat (S ''0.8''))
        \<and> py_get d (S ''image_shape'') PNone = Inr (PList [PInt 300, PInt 256])
        \<and> py_get d (S ''minutiae'') PNone
            = Inr (PList [minutia_dict \<lparr>m_x = 0, m_y = 0, m_orientation = S ''0.0'', m_type = S ''bifurcation''\<rparr>])
        \<and> py_get d (S ''minutiae_count'') PNone = Inr (PInt 1))"
proof -
  define m0 where "m0 = \<lparr>m_x = 0, m_y = 0, m_orientation = S ''0.0'', m_type = S ''bifurcation''\<rparr>"
  have q: "float_lit (S ''0.8'')" by (rule float_lit_examples(2))
  have ms: "\<forall>m \<in> set [m0]. float_lit (m_orientation m) \<and> list_all plain_char (m_type m)"
    using float_lit_examples(1) plain_bifurcation by (simp add: m0_def)
  have g: "generate_template (map minutia_dict [m0]) (S ''0.8'') (300, 256)
   = Some (S ''eyJ2ZXJzaW9uIjoiMS4wIiwicXVhbGl0eSI6MC44LCJpbWFnZV9zaGFwZSI6WzMwMCwyNTZdLCJtaW51dGlhZSI6W3sieCI6MCwieSI6MCwib3JpZW50YXRpb24iOjAuMCwidHlwZSI6ImJpZnVyY2F0aW9uIn1dLCJtaW51dGlhZV9jb3VudCI6MSwiY3JlYXRlZF9hdCI6bnVsbH0='')"
    using generate_template_example by (simp add: m0_def)
  from template_round_trip[OF q ms, of "(300, 256)"] g
  show ?thesis
    unfolding m0_def[symmetric] by (auto simp: template_version_def)
qed

text \<open>
  What makes \<open>_decode_template\<close> return \<open>None\<close>, stated on the argument rather than on
  the three library calls: a string without padding whose base64 characters are not a
  multiple of four in number is refused by \<open>b64decode\<close>, and the base64 text of any
  bytes decodes back to these bytes, so that the result for such a text is decided by the
  UTF-8 decoder and the JSON parser alone.
\<close>

lemma a2b_base64_unpadded:
  assumes "61 \<notin> set s" "q < 4"
  shows "a2b_base64 s q l p out = None
         \<longleftrightarrow> (q + length (filter (\<lambda>c. table_a2b_base64 c \<noteq> None) s)) mod 4 \<noteq> 0"
  using assms
proof (induction s arbitrary: q l p out)
  case Nil
  then show ?case by simp
next
  case (Cons c s)
  have c: "c \<noteq> 61" and s: "61 \<notin> set s" using Cons.prems(1) by auto
  show ?case
  proof (cases "table_a2b_base64 c")
    case None
    then show ?thesis using c Cons.IH[OF s Cons.prems(2)] by simp
  next
    case (Some v)
    consider "q = 0" | "q = 1" | "q = 2" | "q = 3" using Cons.prems(2) by linarith
    then show ?thesis
    proof cases
      case 1
      then show ?thesis using c Some Cons.IH[OF s, of 1] by simp
    next
      case 2
      then show ?thesis using c Some Cons.IH[OF s, of 2] by simp
    next
      case 3
      then show ?thesis using c Some Cons.IH[OF s, of 3] by simp
    next
      case 4
      then show ?thesis using c Some Cons.IH[OF s, of 0] by simp
    qed
  qed
qed

lemma b64decode_unpadded:
  assumes "61 \<notin> set s"
    and "length (filter (\<lambda>c. table_a2b_base64 c \<noteq> None) s) mod 4 \<noteq> 0"
  shows "b64decode s = None"
  using a2b_base64_unpadded[OF assms(1), of 0 0 0 "[]"] assms(2) by (simp add: b64decode_def)

lemma b64decode_b64encode: "\<forall>b \<in> set bs. b < 256 \<Longrightarrow> b64decode (b64encode bs) = Some bs"
  using a2b_b64encode[of bs "[]"] b64encode_ascii[of bs] by (fastforce simp: b64decode_def)

lemma decode_template_b64encode:
  assumes "\<forall>b \<in> set bs. b < 256"
  shows "decode_template (PStr (b64encode bs))
         = (case bytes_decode bs of
              None \<Rightarrow> PNone
            | Some txt \<Rightarrow> (case json_loads txt of None \<Rightarrow> PNone | Some v \<Rightarrow> v))"
  by (simp add: decode_template_def b64decode_b64encode[OF assms])

lemma decode_template_none_iff:
  "decode_template template = PNone \<longleftrightarrow>
     (\<forall>s. template \<noteq> PStr s)
     \<or> (\<exists>s. template = PStr s
           \<and> (b64decode s = None
               \<or> (\<exists>bs. b64decode s = Some bs
                     \<and> (bytes_decode bs = None
                         \<or> (\<exists>txt. bytes_decode bs = Some txt
                               \<and> (json_loads txt = None \<or> json_loads txt = Some PNone))))))"
  by (cases template) (auto simp: decode_template_def split: option.splits)

lemma decode_template_record:
  "b64decode s = Some bs \<Longrightarrow> bytes_decode bs = Some txt \<Longrightarrow> json_loads txt = Some (PDict kvs)
   \<Longrightarrow> decode_template (PStr s) = PDict kvs"
  by (simp add: decode_template_def)

lemma decode_example_null: "decode_template (PStr (S ''bnVsbA=='')) = PNone"
  by code_simp

lemma decode_example_other_version:
  "decode_template (PStr (S ''eyJ2ZXJzaW9uIjoiOS45IiwicXVhbGl0eSI6MC44LCJpbWFnZV9zaGFwZSI6WzMwMCwyNTZdLCJtaW51dGlhZSI6W3sieCI6MCwieSI6MCwib3JpZW50YXRpb24iOjAuMCwidHlwZSI6ImJpZnVyY2F0aW9uIn1dLCJtaW51dGlhZV9jb3VudCI6MSwiY3JlYXRlZF9hdCI6bnVsbH0=''))
   = PDict [(S ''version'', PStr (S ''9.9'')),
            (S ''quality'', PFloat (S ''0.8'')),
            (S ''image_shape'', PList [PInt 300, PInt 256]),
            (S ''minutiae'', PList [minutia_dict \<lparr>m_x = 0, m_y = 0, m_orientation = S ''0.0'', m_type = S ''bifurcation''\<rparr>]),
            (S ''minutiae_count'', PInt 1),
            (S ''created_at'', PNone)]"
  by code_simp

lemma encode_example_other_version:
  "b64encode (json_dumps
     (PDict [(S ''version'', PStr (S ''9.9'')),
            (S ''quality'', PFloat (S ''0.8'')),
            (S ''image_shape'', PList [PInt 300, PInt 256]),
            (S ''minutiae'', PList [minutia_dict \<lparr>m_x = 0, m_y = 0, m_orientation = S ''0.0'', m_type = S ''bifurcation''\<rparr>]),
            (S ''minutiae_count'', PInt 1),
            (S ''created_at'', PNone)]))
   = S ''eyJ2ZXJzaW9uIjoiOS45IiwicXVhbGl0eSI6MC44LCJpbWFnZV9zaGFwZSI6WzMwMCwyNTZdLCJtaW51dGlhZSI6W3sieCI6MCwieSI6MCwib3JpZW50YXRpb24iOjAuMCwidHlwZSI6ImJpZnVyY2F0aW9uIn1dLCJtaW51dGlhZV9jb3VudCI6MSwiY3JlYXRlZF9hdCI6bnVsbH0=''"
  by code_simp

lemma failure_examples:
  "b64encode [255] = S ''/w==''" "bytes_decode [255] = None"
  "b64encode (S ''{'') = S ''ew==''" "json_loads (S ''{'') = None"
  "json_loads (S ''null'') = Some PNone" "b64encode (S ''null'') = S ''bnVsbA==''"
  by code_simp+

text \<open>
  Against C7 as stated: a template with every field of a record, the ones of the template
  for one minutia at (0, 0), and the version \<open>9.9\<close>, which is not the version \<open>1.0\<close> the
  processor writes, decodes to the record. The code has no list of recognized versions and
  nothing that fails on a version.
\<close>

theorem decode_accepts_unrecognized_version_counterexample:
  "(\<exists>d. decode_template (PStr (S ''eyJ2ZXJzaW9uIjoiOS45IiwicXVhbGl0eSI6MC44LCJpbWFnZV9zaGFwZSI6WzMwMCwyNTZdLCJtaW51dGlhZSI6W3sieCI6MCwieSI6MCwib3JpZW50YXRpb24iOjAuMCwidHlwZSI6ImJpZnVyY2F0aW9uIn1dLCJtaW51dGlhZV9jb3VudCI6MSwiY3JlYXRlZF9hdCI6bnVsbH0=''))
         = d
       \<and> d \<noteq> PNone
       \<and> py_get d (S ''version'') PNone = Inr (PStr (S ''9.9''))
       \<and> py_get d (S ''quality'') PNone = Inr (PFloat (S ''0.8''))
       \<and> py_get d (S ''image_shape'') PNone = Inr (PList [PInt 300, PInt 256])
       \<and> py_get d (S ''minutiae'') PNone
           = Inr (PList [minutia_dict \<lparr>m_x = 0, m_y = 0, m_orientation = S ''0.0'', m_type = S ''bifurcation''\<rparr>])
       \<and> py_get d (S ''minutiae_count'') PNone = Inr (PInt 1))
   \<and> S ''9.9'' \<noteq> template_version"
  using decode_example_other_version by (simp add: template_version_def)

text \<open>
  C7, amended. \<open>_decode_template\<close> never raises and has one error result, \<open>None\<close>, with
  no kinds of error. It returns \<open>None\<close> whenever its argument is not a string, is not
  valid base64 (a character outside ASCII, or base64 characters that are not a multiple of
  four in number and no padding), holds bytes that are not valid UTF-8, or holds a text that
  is not valid JSON; the JSON text \<open>null\<close> gives \<open>None\<close> as well, and there is no other
  way to get \<open>None\<close>. The version is not looked at: a string whose three decoding steps
  give a record decodes to that record whatever its version, and every record
  \<open>json.dumps\<close> writes without escapes decodes to itself.

  What a text that parses to a value other than a record decodes to is not part of the
  amended claim. The code returns the value as it is, against the return type
  \<open>Optional[Dict[str, Any]]\<close> it declares; C8 shows what follows from it in the
  best-match search. The recursion limit of the interpreter and its limit on the digits of
  an int literal are not modelled: a text nested deeper than the first, or holding an int
  longer than the second, makes \<open>json.loads\<close> raise, and \<open>_decode_template\<close> returns
  \<open>None\<close> for it.
\<close>

theorem decode_template_failures:
  "((\<forall>s. template \<noteq> PStr s) \<longrightarrow> decode_template template = PNone)
   \<and> ((\<exists>c \<in> set s. 128 \<le> c) \<longrightarrow> decode_template (PStr s) = PNone)
   \<and> (61 \<notin> set s \<and> length (filter (\<lambda>c. table_a2b_base64 c \<noteq> None) s) mod 4 \<noteq> 0 \<longrightarrow>
        decode_template (PStr s) = PNone)
   \<and> ((\<forall>b \<in> set bs. b < 256) \<and> bytes_decode bs = None \<longrightarrow>
        decode_template (PStr (b64encode bs)) = PNone)
   \<and> ((\<forall>c \<in> set txt. c < 128) \<and> (json_loads txt = None \<or> json_loads txt = Some PNone) \<longrightarrow>
        decode_template (PStr (b64encode txt)) = PNone)
   \<and> (decode_template template = PNone \<longleftrightarrow>
        (\<forall>s. template \<noteq> PStr s)
        \<or> (\<exists>s. template = PStr s
              \<and> (b64decode s = None
                  \<or> (\<exists>bs. b64decode s = Some bs
                        \<and> (bytes_decode bs = None
                            \<or> (\<exists>txt. bytes_decode bs = Some txt
                                  \<and> (json_loads txt = None \<or> json_loads txt = Some PNone)))))))
   \<and> (b64decode s = Some bs \<and> bytes_decode bs = Some txt \<and> json_loads txt = Some (PDict kvs) \<longrightarrow>
        decode_template (PStr s) = PDict kvs)
   \<and> (plain_json (PDict kvs) \<longrightarrow>
        (\<exists>bs s. str_encode (json_dumps (PDict kvs)) = Some bs
               \<and> bytes_decode (b64encode bs) = Some s
               \<and> decode_template (PStr s) = PDict kvs))"
proof -
  have 1: "(\<forall>s. template \<noteq> PStr s) \<longrightarrow> decode_template template = PNone"
    by (cases template) (simp_all add: decode_template_def)
  have 2: "(\<exists>c \<in> set s. 128 \<le> c) \<longrightarrow> decode_template (PStr s) = PNone"
    by (auto simp: decode_template_def b64decode_def)
  have 3: "61 \<notin> set s \<and> length (filter (\<lambda>c. table_a2b_base64 c \<noteq> None) s) mod 4 \<noteq> 0 \<longrightarrow>
        decode_template (PStr s) = PNone"
    using b64decode_unpadded[of s] by (simp add: decode_template_def)
  have 4: "(\<forall>b \<in> set bs. b < 256) \<and> bytes_decode bs = None \<longrightarrow>
        decode_template (PStr (b64encode bs)) = PNone"
    using decode_template_b64encode[of bs] by simp
  have 5: "(\<forall>c \<in> set txt. c < 128) \<and> (json_loads txt = None \<or> json_loads txt = Some PNone) \<longrightarrow>
        decode_template (PStr (b64encode txt)) = PNone"
  proof (intro impI, elim conjE)
    assume a: "\<forall>c \<in> set txt. c < 128" and j: "json_loads txt = None \<or> json_loads txt = Some PNone"
    have b: "\<forall>b \<in> set txt. b < 256" using a by fastforce
    show "decode_template (PStr (b64encode txt)) = PNone"
      using decode_template_b64encode[OF b] bytes_decode_ascii[OF a] j by auto
  qed
  have 7: "b64decode s = Some bs \<and> bytes_decode bs = Some txt \<and> json_loads txt = Some (PDict kvs) \<longrightarrow>
        decode_template (PStr s) = PDict kvs"
    using decode_template_record[of s bs "txt" kvs] by blast
  have 8: "plain_json (PDict kvs) \<longrightarrow>
        (\<exists>bs s. str_encode (json_dumps (PDict kvs)) = Some bs
               \<and> bytes_decode (b64encode bs) = Some s
               \<and> decode_template (PStr s) = PDict kvs)"
    using codec_round_trip[of "PDict kvs"] by blast
  show ?thesis
    using 1 2 3 4 5 decode_template_none_iff[of template] 7 8 by (intro conjI)
qed

theorem decode_template_failures_witness:
  "decode_template (PInt 5) = PNone
   \<and> decode_template (PStr [233]) = PNone
   \<and> decode_template (PStr (S ''not-base64'')) = PNone
   \<and> b64encode [255] = S ''/w==''
   \<and> bytes_decode [255] = None
   \<and> decode_template (PStr (S ''/w=='')) = PNone
   \<and> b64encode (S ''{'') = S ''ew==''
   \<and> json_loads (S ''{'') = None
   \<and> decode_template (PStr (S ''ew=='')) = PNone
   \<and> b64encode (S ''null'') = S ''bnVsbA==''
   \<and> json_loads (S ''null'') = Some PNone
   \<and> decode_template (PStr (S ''bnVsbA=='')) = PNone
   \<and> b64encode (json_dumps
        (PDict [(S ''version'', PStr (S ''9.9'')),
                (S ''quality'', PFloat (S ''0.8'')),
                (S ''image_shape'', PList [PInt 300, PInt 256]),
                (S ''minutiae'', PList [minutia_dict \<lparr>m_x = 0, m_y = 0, m_orientation = S ''0.0'', m_type = S ''bifurcation''\<rparr>]),
                (S ''minutiae_count'', PInt 1),
                (S ''created_at'', PNone)]))
       = S ''eyJ2ZXJzaW9uIjoiOS45IiwicXVhbGl0eSI6MC44LCJpbWFnZV9zaGFwZSI6WzMwMCwyNTZdLCJtaW51dGlhZSI6W3sieCI6MCwieSI6MCwib3JpZW50YXRpb24iOjAuMCwidHlwZSI6ImJpZnVyY2F0aW9uIn1dLCJtaW51dGlhZV9jb3VudCI6MSwiY3JlYXRlZF9hdCI6bnVsbH0=''
   \<and> decode_template (PStr (S ''eyJ2ZXJzaW9uIjoiOS45IiwicXVhbGl0eSI6MC44LCJpbWFnZV9zaGFwZSI6WzMwMCwyNTZdLCJtaW51dGlhZSI6W3sieCI6MCwieSI6MCwib3JpZW50YXRpb24iOjAuMCwidHlwZSI6ImJpZnVyY2F0aW9uIn1dLCJtaW51dGlhZV9jb3VudCI6MSwiY3JlYXRlZF9hdCI6bnVsbH0=''))
       = PDict [(S ''version'', PStr (S ''9.9'')),
                (S ''quality'', PFloat (S ''0.8'')),
                (S ''image_shape'', PList [PInt 300, PInt 256]),
                (S ''minutiae'', PList [minutia_dict \<lparr>m_x = 0, m_y = 0, m_orientation = S ''0.0'', m_type = S ''bifurcation''\<rparr>]),
                (S ''minutiae_count'', PInt 1),
                (S ''created_at'', PNone)]
   \<and> b64decode (S ''eyJ2ZXJzaW9uIjoiOS45IiwicXVhbGl0eSI6MC44LCJpbWFnZV9zaGFwZSI6WzMwMCwyNTZdLCJtaW51dGlhZSI6W3sieCI6MCwieSI6MCwib3JpZW50YXRpb24iOjAuMCwidHlwZSI6ImJpZnVyY2F0aW9uIn1dLCJtaW51dGlhZV9jb3VudCI6MSwiY3JlYXRlZF9hdCI6bnVsbH0='')
       = Some (json_dumps
        (PDict [(S ''version'', PStr (S ''9.9'')),
                (S ''quality'', PFloat (S ''0.8'')),
                (S ''image_shape'', PList [PInt 300, PInt 256]),
                (S ''minutiae'', PList [minutia_dict \<lparr>m_x = 0, m_y = 0, m_orientation = S ''0.0'', m_type = S ''bifurcation''\<rparr>]),
                (S ''minutiae_count'', PInt 1),
                (S ''created_at'', PNone)]))
   \<and> bytes_decode (json_dumps
        (PDict [(S ''version'', PStr (S ''9.9'')),
                (S ''quality'', PFloat (S ''0.8'')),
                (S ''image_shape'', PList [PInt 300, PInt 256]),
                (S ''minutiae'', PList [minutia_dict \<lparr>m_x = 0, m_y = 0, m_orientation = S ''0.0'', m_type = S ''bifurcation''\<rparr>]),
                (S ''minutiae_count'', PInt 1),
                (S ''created_at'', PNone)]))
       = Some (json_dumps
        (PDict [(S ''version'', PStr (S ''9.9'')),
                (S ''quality'', PFloat (S ''0.8'')),
                (S ''image_shape'', PList [PInt 300, PInt 256]),
                (S ''minutiae'', PList [minutia_dict \<lparr>m_x = 0, m_y = 0, m_orientation = S ''0.0'', m_type = S ''bifurcation''\<rparr>]),
                (S ''minutiae_count'', PInt 1),
                (S ''created_at'', PNone)]))
   \<and> json_loads (json_dumps
        (PDict [(S ''version'', PStr (S ''9.9'')),
                (S ''quality'', PFloat (S ''0.8'')),
                (S ''image_shape'', PList [PInt 300, PInt 256]),
                (S ''minutiae'', PList [minutia_dict \<lparr>m_x = 0, m_y = 0, m_orientation = S ''0.0'', m_type = S ''bifurcation''\<rparr>]),
                (S ''minutiae_count'', PInt 1),
                (S ''created_at'', PNone)]))
       = Some (PDict [(S ''version'', PStr (S ''9.9'')),
                (S ''quality'', PFloat (S ''0.8'')),
                (S ''image_shape'', PList [PInt 300, PInt 256]),
                (S ''minutiae'', PList [minutia_dict \<lparr>m_x = 0, m_y = 0, m_orientation = S ''0.0'', m_type = S ''bifurcation''\<rparr>]),
                (S ''minutiae_count'', PInt 1),
                (S ''created_at'', PNone)])"
proof -
  define kvs where "kvs = [(S ''version'', PStr (S ''9.9'')),
                (S ''quality'', PFloat (S ''0.8'')),
                (S ''image_shape'', PList [PInt 300, PInt 256]),
                (S ''minutiae'', PList [minutia_dict \<lparr>m_x = 0, m_y = 0, m_orientation = S ''0.0'', m_type = S ''bifurcation''\<rparr>]),
                (S ''minutiae_count'', PInt 1),
                (S ''created_at'', PNone)]"
  define T9 where "T9 = S ''eyJ2ZXJzaW9uIjoiOS45IiwicXVhbGl0eSI6MC44LCJpbWFnZV9zaGFwZSI6WzMwMCwyNTZdLCJtaW51dGlhZSI6W3sieCI6MCwieSI6MCwib3JpZW50YXRpb24iOjAuMCwidHlwZSI6ImJpZnVyY2F0aW9uIn1dLCJtaW51dGlhZV9jb3VudCI6MSwiY3JlYXRlZF9hdCI6bnVsbH0=''"
  have a1: "decode_template (PInt 5) = PNone"
    using decode_template_failures[of "PInt 5"] by simp
  have a2: "decode_template (PStr [233]) = PNone"
    using decode_template_failures[of _ "[233]"] by simp
  have "61 \<notin> set (S ''not-base64'')
        \<and> length (filter (\<lambda>c. table_a2b_base64 c \<noteq> None) (S ''not-base64'')) mod 4 \<noteq> 0"
    by (simp add: table_a2b_base64_def)
  then have a3: "decode_template (PStr (S ''not-base64'')) = PNone"
    using decode_template_failures[of _ "S ''not-base64''"] by blast
  have a4: "decode_template (PStr (b64encode [255])) = PNone"
    using decode_template_failures[of _ _ "[255]"] failure_examples(2) by simp
  have "\<forall>c \<in> set (S ''{''). c < 128" by simp
  then have a5: "decode_template (PStr (b64encode (S ''{''))) = PNone"
    using decode_template_failures[of _ _ _ "S ''{''"] failure_examples(4) by blast
  have "\<forall>c \<in> set (S ''null''). c < 128" by simp
  then have a6: "decode_template (PStr (b64encode (S ''null''))) = PNone"
    using decode_template_failures[of _ _ _ "S ''null''"] failure_examples(5) by blast
  have p: "plain_json (PDict kvs)"
    using float_lit_examples plain_bifurcation
    by (simp add: kvs_def plain_char_def minutia_dict_def)
  have asc: "\<forall>c \<in> set (json_dumps (PDict kvs)). c < 128" using p by (rule json_dumps_ascii)
  obtain bs s where e: "str_encode (json_dumps (PDict kvs)) = Some bs"
    "bytes_decode (b64encode bs) = Some s" "decode_template (PStr s) = PDict kvs"
    using decode_template_failures[of _ _ _ _ kvs] p by blast
  have bs: "bs = json_dumps (PDict kvs)" using e(1) str_encode_ascii[OF asc] by simp
  have "bytes_decode (b64encode bs) = Some (b64encode bs)"
    unfolding bs using asc by (rule b64_round_trip(1))
  then have s: "s = b64encode (json_dumps (PDict kvs))" using e(2) bs by simp
  have enc: "b64encode (json_dumps (PDict kvs)) = T9"
    unfolding kvs_def T9_def by (rule encode_example_other_version)
  have a7: "decode_template (PStr T9) = PDict kvs" using e(3) s enc by simp
  have h1: "b64decode T9 = Some (json_dumps (PDict kvs))"
    using b64_round_trip(2)[OF asc] unfolding enc .
  have h2: "bytes_decode (json_dumps (PDict kvs)) = Some (json_dumps (PDict kvs))"
    using asc by (rule bytes_decode_ascii)
  have h3: "json_loads (json_dumps (PDict kvs)) = Some (PDict kvs)"
    using p by (rule json_loads_dumps)
  have a8: "decode_template (PStr T9) = PDict kvs"
    using decode_template_failures[of _ T9 "json_dumps (PDict kvs)" "json_dumps (PDict kvs)" kvs]
      h1 h2 h3 by blast
  show ?thesis
    using a1 a2 a3 a4[unfolded failure_examples(1)] a5[unfolded failure_examples(3)]
      a6[unfolded failure_examples(6)] failure_examples enc a8 h1 h2 h3
    unfolding kvs_def T9_def by (intro conjI)
qed

lemma calculate_quality_bounds:
  "0 \<le> calculate_quality len std lv ed \<and> calculate_quality len std lv ed \<le> 1"
  by (simp add: calculate_quality_def Let_def)

lemma verify_quality_stored:
  assumes "verify_quality template = QualityResult b q n"
  shows "\<exists>data. decode_template template = data
                \<and> py_get data (S ''quality'') (PFloat (S ''0.0'')) = Inr q"
  using assms
  by (auto simp: verify_quality_def Let_def split: option.splits if_splits sum.splits bool.splits)

lemma verify_quality_generated:
  assumes "float_lit quality"
    and "\<forall>m \<in> set M. float_lit (m_orientation m) \<and> list_all plain_char (m_type m)"
  shows "\<exists>s b. generate_template (map minutia_dict M) quality image_shape = Some s
               \<and> verify_quality (PStr s) = QualityResult b (PFloat quality) (PInt (int (length M)))"
proof -
  define td where "td = template_data (map minutia_dict M) quality image_shape"
  define s where "s = b64encode (json_dumps td)"
  have g: "generate_template (map minutia_dict M) quality image_shape = Some s"
    and d: "decode_template (PStr s) = td"
    using generate_template_decodes[OF plain_template_data[OF assms], of image_shape]
    by (simp_all add: s_def td_def)
  obtain r where r: "float_val quality = Some r" using float_lit_val[OF assms(1)] by blast
  have q: "py_get td (S ''quality'') (PFloat (S ''0.0'')) = Inr (PFloat quality)"
    and c: "py_get td (S ''minutiae_count'') (PInt 0) = Inr (PInt (int (length M)))"
    unfolding td_def using template_data_fields[of "map minutia_dict M" quality image_shape]
    by simp_all
  have t: "truthy td" unfolding td_def by (rule template_data_truthy)
  have "verify_quality (PStr s)
        = QualityResult (min_quality_threshold \<le> r \<and> 10 \<le> length M)
            (PFloat quality) (PInt (int (length M)))"
    using q[simplified] c[simplified] t
    by (cases "min_quality_threshold \<le> r") (simp_all add: verify_quality_def Let_def d py_ge_def r)
  then show ?thesis using g by blast
qed

text \<open>
  Against C9 as stated: \<open>verify_quality\<close> accepts the template
  \<open>{"quality":7.5,"minutiae_count":12}\<close>, declares it valid and reports the quality 7.5.
\<close>

theorem verify_quality_unclamped_counterexample:
  "verify_quality (PStr (S ''eyJxdWFsaXR5Ijo3LjUsIm1pbnV0aWFlX2NvdW50IjoxMn0=''))
     = QualityResult True (PFloat (S ''7.5'')) (PInt 12)
   \<and> float_val (S ''7.5'') = Some (15 / 2)
   \<and> (1 :: real) < 15 / 2"
proof -
  have "verify_quality (PStr (S ''eyJxdWFsaXR5Ijo3LjUsIm1pbnV0aWFlX2NvdW50IjoxMn0=''))
     = QualityResult True (PFloat (S ''7.5'')) (PInt 12)"
    by (simp add: verify_quality_def Let_def decode_example_quality[simplified] py_ge_def
        float_val_examples(1)[simplified] min_quality_threshold_def)
  then show ?thesis using float_val_examples(1) by simp
qed

text \<open>
  C9, amended. The quality \<open>verify_quality\<close> reports is the \<open>quality\<close> field stored in
  the template (0.0 when absent), neither clamped nor checked. \<open>_calculate_quality\<close> clamps
  its result into the interval from 0 to 1, and for a template \<open>_generate_template\<close> built
  \<open>verify_quality\<close> reports the quality the template was generated with.
\<close>

theorem verify_quality_reports_stored_quality:
  "(verify_quality template = QualityResult b q n \<longrightarrow>
      (\<exists>data. decode_template template = data
             \<and> py_get data (S ''quality'') (PFloat (S ''0.0'')) = Inr q))
   \<and> 0 \<le> calculate_quality len std lv ed
   \<and> calculate_quality len std lv ed \<le> 1
   \<and> (float_lit quality
        \<and> (\<forall>m \<in> set M. float_lit (m_orientation m) \<and> list_all plain_char (m_type m)) \<longrightarrow>
        (\<exists>s b'. generate_template (map minutia_dict M) quality image_shape = Some s
               \<and> verify_quality (PStr s)
                   = QualityResult b' (PFloat quality) (PInt (int (length M)))))"
  using verify_quality_stored[of template b q n] calculate_quality_bounds[of len std lv ed]
    verify_quality_generated[of quality M image_shape]
  by blast

theorem verify_quality_reports_stored_quality_witness:
  "verify_quality (PStr (S ''eyJ2ZXJzaW9uIjoiMS4wIiwicXVhbGl0eSI6MC44LCJpbWFnZV9zaGFwZSI6WzMwMCwyNTZdLCJtaW51dGlhZSI6W3sieCI6MCwieSI6MCwib3JpZW50YXRpb24iOjAuMCwidHlwZSI6ImJpZnVyY2F0aW9uIn1dLCJtaW51dGlhZV9jb3VudCI6MSwiY3JlYXRlZF9hdCI6bnVsbH0=''))
     = QualityResult False (PFloat (S ''0.8'')) (PInt 1)
   \<and> float_val (S ''0.8'') = Some (4 / 5)
   \<and> calculate_quality 30 255 1000 1 = 1
   \<and> 0 \<le> calculate_quality 30 255 1000 1 \<and> calculate_quality 30 255 1000 1 \<le> 1"
proof -
  define m0 where "m0 = \<lparr>m_x = 0, m_y = 0, m_orientation = S ''0.0'', m_type = S ''bifurcation''\<rparr>"
  define T0 where "T0 = S ''eyJ2ZXJzaW9uIjoiMS4wIiwicXVhbGl0eSI6MC44LCJpbWFnZV9zaGFwZSI6WzMwMCwyNTZdLCJtaW51dGlhZSI6W3sieCI6MCwieSI6MCwib3JpZW50YXRpb24iOjAuMCwidHlwZSI6ImJpZnVyY2F0aW9uIn1dLCJtaW51dGlhZV9jb3VudCI6MSwiY3JlYXRlZF9hdCI6bnVsbH0=''"
  have q: "float_lit (S ''0.8'')" by (rule float_lit_examples(2))
  have ms: "\<forall>m \<in> set [m0]. float_lit (m_orientation m) \<and> list_all plain_char (m_type m)"
    using float_lit_examples(1) plain_bifurcation by (simp add: m0_def)
  have g: "generate_template (map minutia_dict [m0]) (S ''0.8'') (300, 256) = Some T0"
    using generate_template_example by (simp add: m0_def T0_def)
  note t = verify_quality_reports_stored_quality[of "PStr T0" False "PFloat (S ''0.8'')" "PInt 1"
      30 255 1000 1 "S ''0.8''" "[m0]" "(300, 256)"]
  from t q ms g obtain b' where v: "verify_quality (PStr T0) = QualityResult b' (PFloat (S ''0.8'')) (PInt 1)"
    by auto
  have d: "decode_template (PStr T0) = template_data [minutia_dict m0] (S ''0.8'') (300, 256)"
    unfolding T0_def m0_def by (rule decode_example_origin)
  have "verify_quality (PStr T0) = QualityResult False (PFloat (S ''0.8'')) (PInt 1)"
    using template_data_fields(2,5)[of "[minutia_dict m0]" "S ''0.8''" "(300, 256)"]
    by (simp add: verify_quality_def Let_def d template_data_truthy py_ge_def
        float_val_examples(2)[simplified] min_quality_threshold_def)
  moreover have "calculate_quality 30 255 1000 1 = 1"
    by (simp add: calculate_quality_def)
  ultimately show ?thesis
    using t float_val_examples(2) unfolding T0_def by simp
qed

end
